theory Spec2Isabelle
  imports Complex_Main
begin

section \<open>Data model (src/types.ts, src/App.tsx)\<close>

text \<open>
  JavaScript numbers are modelled as \<open>real\<close> (\<open>timestamp\<close>, an integer number of
  milliseconds, as \<open>int\<close>), strings as \<open>string\<close>, an optional field as an \<open>option\<close>.
  The interface \<open>LandmarkResult\<close> of src/types.ts does not declare \<open>isBookmarked\<close> and
  \<open>isDownloaded\<close>, src/App.tsx reads and writes them all the same; an entry read back
  from storage may lack them, so both are optional booleans (\<open>None\<close> is \<open>undefined\<close>).
  The field \<open>id\<close> is called \<open>ident\<close>, since \<open>id\<close> is the identity function of HOL.
\<close>

record RelatedLandmark =
  rl_name :: string
  rl_reason :: string

record LandmarkInfo =
  info_name :: string
  description :: string
  location :: "string option"
  latitude :: "real option"
  longitude :: "real option"

record GroundingSource =
  gs_title :: string
  uri :: string

record LandmarkResult =
  ident :: string
  info :: LandmarkInfo
  history :: string
  sources :: "GroundingSource list"
  imageUrl :: string
  timestamp :: int
  relatedLandmarks :: "RelatedLandmark list option"
  audioBase64 :: "string option"
  isBookmarked :: "bool option"
  isDownloaded :: "bool option"

datatype AppState = IDLE | UPLOADING | IDENTIFYING | SEARCHING | RESULT | ERROR | HISTORY | MAP

text \<open>JavaScript's truthiness of an optional boolean: \<open>!undefined\<close> is \<open>true\<close>.\<close>

fun truthy :: "bool option \<Rightarrow> bool" where
  "truthy None = False"
| "truthy (Some b) = b"

section \<open>Local journal store (src/App.tsx)\<close>

text \<open>
  The component state of \<open>App\<close> that the journal operations touch. \<open>app_history\<close> is the
  React state \<open>history\<close>, \<open>stored\<close> is the value of \<open>localStorage\<close> under \<open>STORAGE_KEY\<close>
  (\<open>None\<close> while nothing was written), kept as the list that \<open>JSON.stringify\<close> serialises.
\<close>

record App =
  app_state :: AppState
  app_result :: "LandmarkResult option"
  app_error :: "string option"
  capturedImage :: "string option"
  app_history :: "LandmarkResult list"
  stored :: "LandmarkResult list option"
  isOffline :: bool

text \<open>The updater that \<open>saveToHistory\<close> passes to \<open>setHistory\<close> (lines 48-53).\<close>

definition saveToHistory_updated :: "LandmarkResult \<Rightarrow> LandmarkResult list \<Rightarrow> LandmarkResult list" where
  "saveToHistory_updated newResult prev =
     (let filtered = filter (\<lambda>item. ident item \<noteq> ident newResult) prev
      in take 50 (newResult # filtered))"

definition saveToHistory :: "LandmarkResult \<Rightarrow> App \<Rightarrow> App" where
  "saveToHistory newResult app =
     (let updated = saveToHistory_updated newResult (app_history app)
      in app\<lparr>app_history := updated, stored := Some updated\<rparr>)"

text \<open>The updaters of \<open>toggleBookmark\<close> and \<open>toggleDownload\<close> (lines 120-122, 133-135).\<close>

definition toggleBookmark_updated :: "string \<Rightarrow> LandmarkResult list \<Rightarrow> LandmarkResult list" where
  "toggleBookmark_updated i prev =
     map (\<lambda>item. if ident item = i
                  then item\<lparr>isBookmarked := Some (\<not> truthy (isBookmarked item))\<rparr>
                  else item) prev"

definition toggleDownload_updated :: "string \<Rightarrow> LandmarkResult list \<Rightarrow> LandmarkResult list" where
  "toggleDownload_updated i prev =
     map (\<lambda>item. if ident item = i
                  then item\<lparr>isDownloaded := Some (\<not> truthy (isDownloaded item))\<rparr>
                  else item) prev"

definition toggleBookmark :: "string \<Rightarrow> App \<Rightarrow> App" where
  "toggleBookmark i app =
     (let updated = toggleBookmark_updated i (app_history app);
          app1 = app\<lparr>app_history := updated, stored := Some updated\<rparr>
      in case app_result app of
           None \<Rightarrow> app1
         | Some result \<Rightarrow>
             if ident result = i
             then app1\<lparr>app_result := Some (result\<lparr>isBookmarked := Some (\<not> truthy (isBookmarked result))\<rparr>)\<rparr>
             else app1)"

definition toggleDownload :: "string \<Rightarrow> App \<Rightarrow> App" where
  "toggleDownload i app =
     (let updated = toggleDownload_updated i (app_history app);
          app1 = app\<lparr>app_history := updated, stored := Some updated\<rparr>
      in case app_result app of
           None \<Rightarrow> app1
         | Some result \<Rightarrow>
             if ident result = i
             then app1\<lparr>app_result := Some (result\<lparr>isDownloaded := Some (\<not> truthy (isDownloaded result))\<rparr>)\<rparr>
             else app1)"

text \<open>A journal entry with a given id, for concrete runs.\<close>

definition entry :: "string \<Rightarrow> LandmarkResult" where
  "entry i = \<lparr>ident = i,
     info = \<lparr>info_name = ''Tower'', description = ''A tower'', location = None,
             latitude = None, longitude = None\<rparr>,
     history = '''', sources = [], imageUrl = '''', timestamp = 0,
     relatedLandmarks = None, audioBase64 = None,
     isBookmarked = Some False, isDownloaded = Some False\<rparr>"

section \<open>Audio timing engine (src/components/NarratedExperience.tsx)\<close>

text \<open>
  The playback state of \<open>NarratedExperience\<close>: the React state \<open>isPlaying\<close>,
  \<open>playbackSpeed\<close>, \<open>currentTime\<close>, \<open>duration\<close> and the refs \<open>startTimeRef\<close>,
  \<open>offsetRef\<close>, \<open>audioBufferRef\<close>, \<open>audioContextRef\<close>, \<open>sourceNodeRef\<close>, each handler
  reading the latest values. The hardware clock \<open>audioContextRef.current.currentTime\<close> is
  not part of the state: every function that reads it takes the reading as its first
  argument. Numbers are reals. A source node records the buffer it plays, its
  \<open>playbackRate.value\<close> and the offset it was started at (\<open>source.start(0, offset)\<close>).
\<close>

record AudioBuffer =
  buf_duration :: real

datatype AudioContext = AudioContext

record AudioBufferSourceNode =
  buffer :: AudioBuffer
  playbackRate :: real
  startedAt :: real

record Engine =
  isPlaying :: bool
  playbackSpeed :: real
  currentTime :: real
  duration :: real
  startTimeRef :: real
  offsetRef :: real
  audioBufferRef :: "AudioBuffer option"
  audioContextRef :: "AudioContext option"
  sourceNodeRef :: "AudioBufferSourceNode option"

text \<open>Lines 355-361. Stopping the old node cannot fail (the \<open>try\<close> swallows it).\<close>

definition stopPlayback :: "Engine \<Rightarrow> Engine" where
  "stopPlayback e = e\<lparr>sourceNodeRef := None, isPlaying := False\<rparr>"

text \<open>Lines 336-353. The first line is the guard: without a decoded buffer or a context, return.\<close>

definition playFromOffset :: "real \<Rightarrow> real \<Rightarrow> Engine \<Rightarrow> Engine" where
  "playFromOffset now offset e =
     (case (audioBufferRef e, audioContextRef e) of
        (Some buf, Some ctx) \<Rightarrow>
          (let e1 = stopPlayback e;
               e2 = e1\<lparr>offsetRef := max 0 (min offset (duration e1))\<rparr>;
               e3 = e2\<lparr>startTimeRef := now\<rparr>;
               source = \<lparr>buffer = buf, playbackRate = playbackSpeed e3, startedAt = offsetRef e3\<rparr>
           in e3\<lparr>sourceNodeRef := Some source, isPlaying := True, currentTime := offsetRef e3\<rparr>)
      | _ \<Rightarrow> e)"

text \<open>
  Lines 313-327, one animation frame. Ending sets the position twice, \<open>current\<close> and then
  \<open>duration\<close>; the second value is the state after the frame. Requesting the next frame
  changes nothing of this state and is left out: frames are given by their clock readings.
\<close>

definition updateProgress :: "real \<Rightarrow> Engine \<Rightarrow> Engine" where
  "updateProgress now e =
     (if isPlaying e \<and> audioContextRef e \<noteq> None
      then (let elapsed = (now - startTimeRef e) * playbackSpeed e;
                current = elapsed + offsetRef e
            in if current \<ge> duration e
               then e\<lparr>isPlaying := False, currentTime := duration e\<rparr>
               else e\<lparr>currentTime := current\<rparr>)
      else e)"

text \<open>Lines 363-374.\<close>

definition togglePlayback :: "real \<Rightarrow> Engine \<Rightarrow> Engine" where
  "togglePlayback now e =
     (if isPlaying e
      then stopPlayback (e\<lparr>offsetRef := currentTime e\<rparr>)
      else if currentTime e \<ge> duration e
           then playFromOffset now 0 e
           else playFromOffset now (currentTime e) e)"

text \<open>Lines 376-384.\<close>

definition skip :: "real \<Rightarrow> real \<Rightarrow> Engine \<Rightarrow> Engine" where
  "skip now seconds e =
     (let newTime = max 0 (min (currentTime e + seconds) (duration e))
      in if isPlaying e
         then playFromOffset now newTime e
         else e\<lparr>offsetRef := newTime, currentTime := newTime\<rparr>)"

text \<open>Lines 386-394; \<open>newTime\<close> is \<open>parseFloat(e.target.value)\<close>.\<close>

definition handleSeek :: "real \<Rightarrow> real \<Rightarrow> Engine \<Rightarrow> Engine" where
  "handleSeek now newTime e =
     (let e1 = e\<lparr>currentTime := newTime\<rparr>
      in if isPlaying e
         then playFromOffset now newTime e1
         else e1\<lparr>offsetRef := newTime\<rparr>)"

text \<open>
  Lines 396-405. \<open>audioContextRef.current?.currentTime || 0\<close> is the clock reading, or 0
  without a context.
\<close>

definition changePlaybackSpeed :: "real \<Rightarrow> real \<Rightarrow> Engine \<Rightarrow> Engine" where
  "changePlaybackSpeed clock speed e =
     (if playbackSpeed e = speed then e
      else (let now = (case audioContextRef e of Some ctx \<Rightarrow> clock | None \<Rightarrow> 0);
                e1 = e\<lparr>offsetRef := currentTime e, startTimeRef := now, playbackSpeed := speed\<rparr>
            in case sourceNodeRef e of
                 Some source \<Rightarrow>
                   if isPlaying e then e1\<lparr>sourceNodeRef := Some (source\<lparr>playbackRate := speed\<rparr>)\<rparr>
                   else e1
               | None \<Rightarrow> e1))"

text \<open>The state at mount, and the state once a clip of \<open>d\<close> seconds is decoded.\<close>

definition initialEngine :: Engine where
  "initialEngine = \<lparr>isPlaying = False, playbackSpeed = 1, currentTime = 0, duration = 0,
     startTimeRef = 0, offsetRef = 0, audioBufferRef = None, audioContextRef = None,
     sourceNodeRef = None\<rparr>"

definition loaded :: "real \<Rightarrow> Engine" where
  "loaded d = initialEngine\<lparr>duration := d, audioBufferRef := Some \<lparr>buf_duration = d\<rparr>,
     audioContextRef := Some AudioContext\<rparr>"

text \<open>
  The user's controls and the animation frame, each with the clock reading at that moment,
  and a run of them from a state.
\<close>

datatype Event = Toggle | Skip real | Seek real | Speed real | Frame

fun dispatch :: "real \<times> Event \<Rightarrow> Engine \<Rightarrow> Engine" where
  "dispatch (now, Toggle) e = togglePlayback now e"
| "dispatch (now, Skip seconds) e = skip now seconds e"
| "dispatch (now, Seek t) e = handleSeek now t e"
| "dispatch (now, Speed s) e = changePlaybackSpeed now s e"
| "dispatch (now, Frame) e = updateProgress now e"

text \<open>The positions that successive frames at the given clock readings produce.\<close>

fun positions :: "real list \<Rightarrow> Engine \<Rightarrow> real list" where
  "positions [] e = []"
| "positions (now # nows) e = currentTime (updateProgress now e) # positions nows (updateProgress now e)"

text \<open>No clip is decoded, nothing plays and no source node exists.\<close>

definition unloaded_idle :: "Engine \<Rightarrow> bool" where
  "unloaded_idle e = ((audioBufferRef e = None \<or> audioContextRef e = None)
      \<and> \<not> isPlaying e \<and> sourceNodeRef e = None)"

text \<open>What a frame at \<open>now\<close> leaves: the engine not running, or the position on the line through the anchor.\<close>

definition anchored :: "real \<Rightarrow> Engine \<Rightarrow> bool" where
  "anchored now e = (\<not> (isPlaying e \<and> audioContextRef e \<noteq> None)
     \<or> currentTime e = (now - startTimeRef e) * playbackSpeed e + offsetRef e)"

section \<open>Strings and regular expressions\<close>

text \<open>
  A JavaScript string is modelled as a \<open>string\<close>, a list of 8-bit characters: the texts
  are those whose UTF-16 code units are all below 256. On these, \<open>\s\<close> and \<open>trim\<close> see
  tab, line feed, vertical tab, form feed, carriage return, space and no-break space;
  \<open>\d\<close> is \<open>[0-9]\<close> and \<open>\w\<close> is \<open>[A-Za-z0-9_]\<close>; \<open>toLowerCase\<close> maps \<open>A-Z\<close> and the
  Latin-1 capitals to their small letters.
\<close>

definition isSpace :: "char \<Rightarrow> bool" where
  "isSpace c = (c \<in> set [CHR 0x09, CHR 0x0A, CHR 0x0B, CHR 0x0C, CHR 0x0D, CHR 0x20, CHR 0xA0])"

definition isDigit :: "char \<Rightarrow> bool" where
  "isDigit c = (c \<in> set ''0123456789'')"

definition isWord :: "char \<Rightarrow> bool" where
  "isWord c = (c \<in> set ''abcdefghijklmnopqrstuvwxyzABCDEFGHIJKLMNOPQRSTUVWXYZ0123456789_'')"

definition trim :: "string \<Rightarrow> string" where
  "trim s = rev (dropWhile isSpace (rev (dropWhile isSpace s)))"

definition toLowerChar :: "char \<Rightarrow> char" where
  "toLowerChar c =
     (let n = of_char c :: nat
      in if (65 \<le> n \<and> n \<le> 90) \<or> (192 \<le> n \<and> n \<le> 222 \<and> n \<noteq> 215)
         then char_of (n + 32) else c)"

definition toLowerCase :: "string \<Rightarrow> string" where
  "toLowerCase s = map toLowerChar s"

text \<open>\<open>s.includes(sub)\<close>; \<open>includes\<close> is a keyword of Isabelle, hence the name.\<close>

fun startsWith :: "string \<Rightarrow> string \<Rightarrow> bool" where
  "startsWith s [] = True"
| "startsWith [] (p # ps) = False"
| "startsWith (c # cs) (p # ps) = (c = p \<and> startsWith cs ps)"

fun includesStr :: "string \<Rightarrow> string \<Rightarrow> bool" where
  "includesStr [] sub = startsWith [] sub"
| "includesStr (c # cs) sub = (startsWith (c # cs) sub \<or> includesStr cs sub)"

text \<open>\<open>lines.join(sep)\<close> and \<open>s.split(d)\<close> for a one-character separator.\<close>

fun join :: "string \<Rightarrow> string list \<Rightarrow> string" where
  "join sep [] = []"
| "join sep [x] = x"
| "join sep (x # y # ys) = x @ sep @ join sep (y # ys)"

fun splitChar :: "char \<Rightarrow> string \<Rightarrow> string list" where
  "splitChar d [] = [[]]"
| "splitChar d (c # cs) =
     (if c = d then [] # splitChar d cs
      else (case splitChar d cs of [] \<Rightarrow> [[c]] | p # ps \<Rightarrow> (c # p) # ps))"

text \<open>
  \<open>s.split(re)\<close> for a regular expression without groups that never matches the empty
  string: \<open>m\<close> gives the length of the match of \<open>re\<close> that starts at the head of its
  argument, 0 when there is none. The pieces between the matches are returned, the last
  one also when it is empty; a string without a match is returned whole.
\<close>

function splitRegex :: "(string \<Rightarrow> nat) \<Rightarrow> string \<Rightarrow> string list" where
  "splitRegex m [] = [[]]"
| "splitRegex m (c # cs) =
     (if 0 < m (c # cs) then [] # splitRegex m (drop (m (c # cs)) (c # cs))
      else (case splitRegex m cs of [] \<Rightarrow> [[c]] | p # ps \<Rightarrow> (c # p) # ps))"
  by pat_completeness auto
termination
  by (relation "measure (\<lambda>(m, s). length s)") auto

text \<open>\<open>/##\s+/\<close> and \<open>/[.!?]\s+/\<close> at the head of a string: \<open>\s+\<close> is greedy.\<close>

fun headerMatch :: "string \<Rightarrow> nat" where
  "headerMatch (a # b # c # cs) =
     (if a = CHR ''#'' \<and> b = CHR ''#'' \<and> isSpace c
      then 2 + length (takeWhile isSpace (c # cs)) else 0)"
| "headerMatch _ = 0"

fun sentenceMatch :: "string \<Rightarrow> nat" where
  "sentenceMatch (a # c # cs) =
     (if a \<in> set ''.!?'' \<and> isSpace c
      then 1 + length (takeWhile isSpace (c # cs)) else 0)"
| "sentenceMatch _ = 0"

text \<open>
  \<open>s.match(/\b(1\d{3}|20\d{2})\b/g)\<close>: all matches from left to right (the empty list
  is \<open>null\<close>). \<open>yearAt\<close> is \<open>(1\d{3}|20\d{2})\b\<close> at the head of a string; the leading
  \<open>\b\<close> holds when the character before is not a word character, which \<open>matchYears\<close>
  carries along in its first argument. After a match the scan goes on behind it.
\<close>

fun yearAt :: "string \<Rightarrow> bool" where
  "yearAt (a # b # c # d # rest) =
     (((a = CHR ''1'' \<and> isDigit b \<and> isDigit c \<and> isDigit d)
       \<or> (a = CHR ''2'' \<and> b = CHR ''0'' \<and> isDigit c \<and> isDigit d))
      \<and> (case rest of [] \<Rightarrow> True | e # _ \<Rightarrow> \<not> isWord e))"
| "yearAt _ = False"

function matchYears :: "bool \<Rightarrow> string \<Rightarrow> string list" where
  "matchYears prevWord [] = []"
| "matchYears prevWord (c # cs) =
     (if \<not> prevWord \<and> yearAt (c # cs)
      then take 4 (c # cs) # matchYears True (drop 4 (c # cs))
      else matchYears (isWord c) cs)"
  by pat_completeness auto
termination
  by (relation "measure (\<lambda>(p, s). length s)") auto

text \<open>A number in a template literal: its decimal digits.\<close>

fun numStr :: "nat \<Rightarrow> string" where
  "numStr n = (if n < 10 then [''0123456789'' ! n]
               else numStr (n div 10) @ [''0123456789'' ! (n mod 10)])"

declare numStr.simps [simp del]

section \<open>Section parser (NarratedExperience.tsx, lines 81-101)\<close>

text \<open>
  Reading \<open>raw[0]\<close> or \<open>lines[0]\<close> of an empty array gives \<open>undefined\<close>, and the method
  call on it throws a \<open>TypeError\<close>: the parser returns the error or the sections.
\<close>

record HistorySection =
  title :: string
  content :: string

datatype error = TypeError

definition introSection :: "string \<Rightarrow> error + HistorySection list" where
  "introSection raw0 =
     (if trim raw0 \<noteq> []
      then (case splitChar (CHR 0x0A) (trim raw0) of
              [] \<Rightarrow> Inl TypeError
            | line0 # _ \<Rightarrow>
                Inr [\<lparr>title = (if length line0 < 30 then line0 else ''Introduction''),
                      content = trim raw0\<rparr>])
      else Inr [])"

definition headedSection :: "string \<Rightarrow> error + HistorySection" where
  "headedSection rawi =
     (case splitChar (CHR 0x0A) rawi of
        [] \<Rightarrow> Inl TypeError
      | line0 # lines \<Rightarrow> Inr \<lparr>title = trim line0, content = trim (join [CHR 0x0A] lines)\<rparr>)"

fun headedSections :: "string list \<Rightarrow> error + HistorySection list" where
  "headedSections [] = Inr []"
| "headedSections (rawi # raws) =
     (case headedSection rawi of
        Inl e \<Rightarrow> Inl e
      | Inr s \<Rightarrow> (case headedSections raws of Inl e \<Rightarrow> Inl e | Inr ss \<Rightarrow> Inr (s # ss)))"

definition sections :: "string \<Rightarrow> error + HistorySection list" where
  "sections hist =
     (case splitRegex headerMatch hist of
        [] \<Rightarrow> Inl TypeError
      | raw0 # raws \<Rightarrow>
          (case introSection raw0 of
             Inl e \<Rightarrow> Inl e
           | Inr parsed \<Rightarrow>
               (case headedSections raws of Inl e \<Rightarrow> Inl e | Inr headed \<Rightarrow> Inr (parsed @ headed))))"

section \<open>Fact extractor (NarratedExperience.tsx, lines 103-132)\<close>

text \<open>
  \<open>Math.random()\<close> is a parameter: \<open>random i\<close> is the value of the \<open>i\<close>-th call during
  one computation of \<open>arFactNodes\<close>. Every node pushed makes three calls, for \<open>x\<close>, \<open>y\<close>
  and \<open>z\<close> in this order, so the node pushed onto \<open>k\<close> nodes takes the calls \<open>3k\<close>, \<open>3k+1\<close>
  and \<open>3k+2\<close>.
\<close>

record ARFactNode =
  node_id :: string
  year :: string
  node_text :: string
  theme :: string
  sectionIdx :: nat
  node_x :: real
  node_y :: real
  node_z :: real

text \<open>Lines 112-116: four \<open>if\<close> statements in a row, each overwriting \<open>theme\<close>.\<close>

definition themeOf :: "string \<Rightarrow> string" where
  "themeOf s =
     (let l = toLowerCase s;
          theme = ''General History'';
          theme = (if includesStr l ''architect'' \<or> includesStr l ''design''
                   then ''Architecture'' else theme);
          theme = (if includesStr l ''war'' \<or> includesStr l ''battle'' \<or> includesStr l ''conflict''
                   then ''Conflict'' else theme);
          theme = (if includesStr l ''rebuild'' \<or> includesStr l ''modern'' \<or> includesStr l ''today''
                   then ''Modernization'' else theme);
          theme = (if includesStr l ''king'' \<or> includesStr l ''queen'' \<or> includesStr l ''emperor''
                   then ''Royal Era'' else theme)
      in theme)"

text \<open>Lines 118-127, the node pushed for sentence \<open>s\<close> with first match \<open>match0\<close>.\<close>

definition factNode :: "(nat \<Rightarrow> real) \<Rightarrow> nat \<Rightarrow> nat \<Rightarrow> nat \<Rightarrow> string \<Rightarrow> string \<Rightarrow> ARFactNode" where
  "factNode random k sIdx idx s match0 =
     \<lparr>node_id = ''fact-'' @ numStr sIdx @ ''-'' @ numStr idx,
      year = match0,
      node_text = take 120 (trim s) @ (if length s > 120 then ''...'' else ''''),
      theme = themeOf s,
      sectionIdx = sIdx,
      node_x = (random (3 * k) - 0.5) * 50,
      node_y = (random (3 * k + 1) - 0.5) * 35,
      node_z = random (3 * k + 2) * (- 120) - 80\<rparr>"

text \<open>The inner and the outer \<open>forEach\<close>, with the array \<open>nodes\<close> passed along.\<close>

fun sentenceNodes :: "(nat \<Rightarrow> real) \<Rightarrow> nat \<Rightarrow> nat \<Rightarrow> string list \<Rightarrow> ARFactNode list \<Rightarrow> ARFactNode list" where
  "sentenceNodes random sIdx idx [] nodes = nodes"
| "sentenceNodes random sIdx idx (s # ss) nodes =
     sentenceNodes random sIdx (Suc idx) ss
       (case matchYears False s of
          [] \<Rightarrow> nodes
        | match0 # _ \<Rightarrow>
            if length nodes < 8
            then nodes @ [factNode random (length nodes) sIdx idx s match0]
            else nodes)"

fun sectionNodes :: "(nat \<Rightarrow> real) \<Rightarrow> nat \<Rightarrow> HistorySection list \<Rightarrow> ARFactNode list \<Rightarrow> ARFactNode list" where
  "sectionNodes random sIdx [] nodes = nodes"
| "sectionNodes random sIdx (sec # secs) nodes =
     sectionNodes random (Suc sIdx) secs
       (sentenceNodes random sIdx 0 (splitRegex sentenceMatch (content sec)) nodes)"

definition arFactNodes :: "(nat \<Rightarrow> real) \<Rightarrow> HistorySection list \<Rightarrow> ARFactNode list" where
  "arFactNodes random secs = sectionNodes random 0 secs []"

text \<open>The history text of the end-to-end scenario.\<close>

definition scenarioText :: string where
  "scenarioText = ''Intro text. ## Origins'' @ [CHR 0x0A] @ ''Built in 1191 by King X. ## Modern Day''
      @ [CHR 0x0A] @ ''Renovated in 2005.''"

text \<open>The sections that the parser gives for it.\<close>

definition scenarioSections :: "HistorySection list" where
  "scenarioSections =
     [\<lparr>title = ''Intro text.'', content = ''Intro text.''\<rparr>,
      \<lparr>title = ''Origins'', content = ''Built in 1191 by King X.''\<rparr>,
      \<lparr>title = ''Modern Day'', content = ''Renovated in 2005.''\<rparr>]"

section \<open>Notions used to state the parser's properties\<close>

text \<open>
  The number of header markers of a text: the positions where \<open>##\<close> and a whitespace
  character stand. The text before the first marker. The matched separators of a split,
  and a text put together again from pieces and separators. A marker as a string: \<open>##\<close>
  and then one or more whitespace characters.
\<close>

fun countMarkers :: "string \<Rightarrow> nat" where
  "countMarkers [] = 0"
| "countMarkers (c # cs) = (if 0 < headerMatch (c # cs) then 1 else 0) + countMarkers cs"

fun beforeFirstMarker :: "string \<Rightarrow> string" where
  "beforeFirstMarker [] = []"
| "beforeFirstMarker (c # cs) = (if 0 < headerMatch (c # cs) then [] else c # beforeFirstMarker cs)"

function splitSeparators :: "(string \<Rightarrow> nat) \<Rightarrow> string \<Rightarrow> string list" where
  "splitSeparators m [] = []"
| "splitSeparators m (c # cs) =
     (if 0 < m (c # cs) then take (m (c # cs)) (c # cs) # splitSeparators m (drop (m (c # cs)) (c # cs))
      else splitSeparators m cs)"
  by pat_completeness auto
termination
  by (relation "measure (\<lambda>(m, s). length s)") auto

fun interleave :: "string list \<Rightarrow> string list \<Rightarrow> string" where
  "interleave [] seps = []"
| "interleave (p # ps) [] = p"
| "interleave (p # ps) (s # ss) = p @ s @ interleave ps ss"

definition isMarker :: "string \<Rightarrow> bool" where
  "isMarker sep = (take 2 sep = ''##'' \<and> drop 2 sep \<noteq> [] \<and> list_all isSpace (drop 2 sep))"

section \<open>Notions used to state the extractor's properties\<close>

text \<open>
  The shape of a match of \<open>(1\d{3}|20\d{2})\<close>: four digits, the first \<open>1\<close> or the first
  two \<open>20\<close>. A node without its random coordinates.
\<close>

definition yearShape :: "string \<Rightarrow> bool" where
  "yearShape y = (\<exists>a b c d. y = [a, b, c, d] \<and> isDigit b \<and> isDigit c \<and> isDigit d
      \<and> isDigit a \<and> (a = CHR ''1'' \<or> (a = CHR ''2'' \<and> b = CHR ''0'')))"

definition eraseCoordinates :: "ARFactNode \<Rightarrow> ARFactNode" where
  "eraseCoordinates n = n\<lparr>node_x := 0, node_y := 0, node_z := 0\<rparr>"

section \<open>Discovery flow (src/App.tsx, lines 56-116)\<close>

text \<open>
  The external service is a parameter: each call is given by how its promise settles,
  fulfilled with a value or rejected with the thrown value, of which only \<open>err.message\<close>
  is read (\<open>None\<close> when it has none). \<open>Promise.all\<close> of two promises is fulfilled with both
  values when both are fulfilled and rejected otherwise, with the reason of the promise
  that rejects first; \<open>relatedSettlesFirst\<close> says which one that is when both reject.
  \<open>crypto.randomUUID()\<close> and \<open>Date.now()\<close> are parameters as well.
\<close>

datatype thrown = Thrown "string option"

datatype 'a settled = Fulfilled 'a | Rejected thrown

record HistoryData =
  hd_text :: string
  hd_sources :: "GroundingSource list"

record Services =
  identifyLandmark :: "string \<Rightarrow> LandmarkInfo settled"
  getLandmarkHistory :: "string \<Rightarrow> HistoryData settled"
  getRelatedLandmarks :: "string \<Rightarrow> string \<Rightarrow> RelatedLandmark list settled"
  relatedSettlesFirst :: bool
  randomUUID :: string
  dateNow :: int

definition promiseAll :: "bool \<Rightarrow> 'a settled \<Rightarrow> 'b settled \<Rightarrow> ('a \<times> 'b) settled" where
  "promiseAll secondFirst p q =
     (case p of
        Fulfilled x \<Rightarrow> (case q of Fulfilled y \<Rightarrow> Fulfilled (x, y) | Rejected e \<Rightarrow> Rejected e)
      | Rejected e \<Rightarrow>
          (case q of
             Fulfilled y \<Rightarrow> Rejected e
           | Rejected e' \<Rightarrow> Rejected (if secondFirst then e' else e)))"

text \<open>The result object of lines 101-111.\<close>

definition newResultOf :: "Services \<Rightarrow> LandmarkInfo \<Rightarrow> string \<Rightarrow> HistoryData \<Rightarrow> RelatedLandmark list \<Rightarrow> LandmarkResult" where
  "newResultOf sv linfo img historyData relatedData =
     \<lparr>ident = randomUUID sv, info = linfo, history = hd_text historyData,
      sources = hd_sources historyData, imageUrl = img, timestamp = dateNow sv,
      relatedLandmarks = Some relatedData, audioBase64 = None,
      isBookmarked = Some False, isDownloaded = Some False\<rparr>"

text \<open>
  Lines 94-116. The function returns the value it throws, if any, with the state it
  leaves: a rejection of the joined fetch is thrown at the \<open>await\<close>, after
  \<open>setState(AppState.SEARCHING)\<close> and before anything else.
\<close>

definition processLandmark :: "Services \<Rightarrow> LandmarkInfo \<Rightarrow> string \<Rightarrow> App \<Rightarrow> thrown option \<times> App" where
  "processLandmark sv linfo img app =
     (let app1 = app\<lparr>app_state := SEARCHING\<rparr>
      in case promiseAll (relatedSettlesFirst sv)
                (getLandmarkHistory sv (info_name linfo))
                (getRelatedLandmarks sv (info_name linfo)
                   (case location linfo of Some l \<Rightarrow> l | None \<Rightarrow> ''''))
         of Rejected e \<Rightarrow> (Some e, app1)
          | Fulfilled (historyData, relatedData) \<Rightarrow>
              (let newResult = newResultOf sv linfo img historyData relatedData;
                   app2 = app1\<lparr>app_result := Some newResult\<rparr>;
                   app3 = saveToHistory newResult app2
               in (None, app3\<lparr>app_state := RESULT\<rparr>)))"

text \<open>The \<open>catch\<close> block of \<open>handleCapture\<close>, lines 68-72.\<close>

definition captureFailed :: "thrown \<Rightarrow> App \<Rightarrow> App" where
  "captureFailed err app =
     app\<lparr>app_error := Some (case err of
                            Thrown (Some m) \<Rightarrow>
                              if m \<noteq> [] then m else ''Failed to analyze image. Please try again.''
                          | Thrown None \<Rightarrow> ''Failed to analyze image. Please try again.''),
         app_state := ERROR\<rparr>"

text \<open>Lines 56-73.\<close>

definition handleCapture :: "Services \<Rightarrow> string \<Rightarrow> App \<Rightarrow> App" where
  "handleCapture sv base64Image app =
     (if isOffline app
      then app\<lparr>app_error := Some ''Internet connection required for new discoveries.'',
               app_state := ERROR\<rparr>
      else (let app1 = app\<lparr>capturedImage := Some base64Image, app_state := IDENTIFYING,
                             app_error := None\<rparr>
            in case identifyLandmark sv base64Image of
                 Rejected err \<Rightarrow> captureFailed err app1
               | Fulfilled linfo \<Rightarrow>
                   (case processLandmark sv linfo base64Image app1 of
                      (Some err, app2) \<Rightarrow> captureFailed err app2
                    | (None, app2) \<Rightarrow> app2)))"

text \<open>The two fetches of \<open>processLandmark\<close> for a landmark, and whether both are fulfilled.\<close>

definition historyFetch :: "Services \<Rightarrow> LandmarkInfo \<Rightarrow> HistoryData settled" where
  "historyFetch sv linfo = getLandmarkHistory sv (info_name linfo)"

definition relatedFetch :: "Services \<Rightarrow> LandmarkInfo \<Rightarrow> RelatedLandmark list settled" where
  "relatedFetch sv linfo =
     getRelatedLandmarks sv (info_name linfo) (case location linfo of Some l \<Rightarrow> l | None \<Rightarrow> '''')"

fun isRejected :: "'a settled \<Rightarrow> bool" where
  "isRejected (Rejected e) = True"
| "isRejected (Fulfilled x) = False"

text \<open>An application state and services for concrete runs.\<close>

definition tower :: LandmarkInfo where
  "tower = \<lparr>info_name = ''Tower'', description = ''A tower'', location = None,
     latitude = None, longitude = None\<rparr>"

definition freshApp :: App where
  "freshApp = \<lparr>app_state = IDLE, app_result = None, app_error = None, capturedImage = None,
     app_history = [entry ''a''], stored = Some [entry ''a''], isOffline = False\<rparr>"

definition failingServices :: Services where
  "failingServices = \<lparr>identifyLandmark = (\<lambda>img. Fulfilled tower),
     getLandmarkHistory = (\<lambda>n. Fulfilled \<lparr>hd_text = ''## Origins'', hd_sources = []\<rparr>),
     getRelatedLandmarks = (\<lambda>n l. Rejected (Thrown (Some ''quota exceeded''))),
     relatedSettlesFirst = False, randomUUID = ''u1'', dateNow = 7\<rparr>"

definition workingServices :: Services where
  "workingServices = failingServices\<lparr>getRelatedLandmarks := (\<lambda>n l. Fulfilled [])\<rparr>"

section \<open>Properties of the journal store\<close>

lemma saveToHistory_updated_eq:
  "saveToHistory_updated r prev = take 50 (r # filter (\<lambda>item. ident item \<noteq> ident r) prev)"
  by (simp add: saveToHistory_updated_def)

lemma filter_existing_shorter:
  assumes "ident r \<in> ident ` set prev"
  shows "length (filter (\<lambda>item. ident item \<noteq> ident r) prev) < length prev"
proof -
  from assms obtain x where "x \<in> set prev" "\<not> (ident x \<noteq> ident r)" by auto
  then show ?thesis by (rule length_filter_less)
qed

lemma upsert_existing_no_growth:
  assumes "ident r \<in> ident ` set prev"
  shows "length (saveToHistory_updated r prev) \<le> length prev"
  using filter_existing_shorter[OF assms] by (simp add: saveToHistory_updated_eq)

lemma upsert_distinct:
  assumes "distinct (map ident prev)"
  shows "distinct (map ident (saveToHistory_updated r prev))"
proof -
  let ?f = "filter (\<lambda>item. ident item \<noteq> ident r) prev"
  have "distinct (map ident ?f)" using assms by (rule distinct_map_filter)
  moreover have "ident r \<notin> set (map ident ?f)" by auto
  ultimately have "distinct (map ident (r # ?f))" by simp
  then have "distinct (take 50 (map ident (r # ?f)))" by (rule distinct_take)
  then show ?thesis by (simp only: saveToHistory_updated_eq take_map)
qed

lemma upsert_snoc_shape:
  assumes "ident r \<notin> ident ` set rs"
  shows "\<exists>rest'. saveToHistory_updated r (take 50 (rev rs @ rest)) = take 50 (r # rev rs @ rest')"
proof -
  let ?P = "\<lambda>item. ident item \<noteq> ident r"
  have ne: "\<forall>x\<in>set rs. ident x \<noteq> ident r" using assms by (metis imageI)
  then have "\<forall>x\<in>set (take 50 (rev rs)). ident x \<noteq> ident r" by (auto dest: in_set_takeD)
  then have "filter ?P (take 50 (rev rs)) = take 50 (rev rs)" by (simp add: filter_id_conv)
  then have "filter ?P (take 50 (rev rs @ rest)) = take 50 (rev rs) @ filter ?P (take (50 - length rs) rest)"
    by simp
  then have "saveToHistory_updated r (take 50 (rev rs @ rest))
      = take 50 (r # take 50 (rev rs) @ filter ?P (take (50 - length rs) rest))"
    by (simp add: saveToHistory_updated_eq)
  also have "\<dots> = take 50 (r # rev rs @ filter ?P (take (50 - length rs) rest))"
    by (cases "length rs \<le> 50") (simp_all add: take_Cons')
  finally show ?thesis by blast
qed

lemma fold_upsert_shape:
  assumes "distinct (map ident rs)" "rs \<noteq> []"
  shows "\<exists>rest. fold saveToHistory_updated rs prev = take 50 (rev rs @ rest)"
  using assms
proof (induction rs rule: rev_induct)
  case Nil
  then show ?case by simp
next
  case (snoc r rs)
  show ?case
  proof (cases "rs = []")
    case True
    then show ?thesis by (auto simp: saveToHistory_updated_eq)
  next
    case False
    from snoc.prems have d: "distinct (map ident rs)" and nin: "ident r \<notin> ident ` set rs" by auto
    from snoc.IH[OF d False] obtain rest where
      "fold saveToHistory_updated rs prev = take 50 (rev rs @ rest)" by blast
    then have "fold saveToHistory_updated (rs @ [r]) prev
        = saveToHistory_updated r (take 50 (rev rs @ rest))" by simp
    with upsert_snoc_shape[OF nin, of rest] show ?thesis by auto
  qed
qed

lemma fold_upsert_full:
  assumes "distinct (map ident rs)" "50 \<le> length rs"
  shows "fold saveToHistory_updated rs prev = take 50 (rev rs)"
proof -
  from assms(2) have "rs \<noteq> []" by auto
  from fold_upsert_shape[OF assms(1) this] obtain rest where
    "fold saveToHistory_updated rs prev = take 50 (rev rs @ rest)" by blast
  with assms(2) show ?thesis by simp
qed

lemma take_rev_51:
  assumes "length rs = 51"
  shows "take 50 (rev rs) = rev (tl rs)"
proof -
  from assms obtain x xs where rs: "rs = x # xs" by (cases rs) auto
  with assms have "length xs = 50" by simp
  then show ?thesis by (simp add: rs)
qed

lemma fold_upsert_51:
  assumes "distinct (map ident rs)" "length rs = 51"
  shows "fold saveToHistory_updated rs prev = rev (tl rs)"
    and "length (fold saveToHistory_updated rs prev) = 50"
    and "hd (fold saveToHistory_updated rs prev) = last rs"
    and "ident (hd rs) \<notin> ident ` set (fold saveToHistory_updated rs prev)"
proof -
  from assms(2) obtain x xs where rs: "rs = x # xs" and len: "length xs = 50"
    by (cases rs) auto
  from assms(2) have "50 \<le> length rs" by simp
  from fold_upsert_full[OF assms(1) this] take_rev_51[OF assms(2)]
  show eq: "fold saveToHistory_updated rs prev = rev (tl rs)" by simp
  from len show "length (fold saveToHistory_updated rs prev) = 50" unfolding eq by (simp add: rs)
  from len have "xs \<noteq> []" by auto
  then show "hd (fold saveToHistory_updated rs prev) = last rs"
    unfolding eq by (simp add: rs hd_rev)
  from assms(1) show "ident (hd rs) \<notin> ident ` set (fold saveToHistory_updated rs prev)"
    unfolding eq by (simp add: rs)
qed

lemma upsert_A_B_A:
  assumes "ident a \<noteq> ident b"
  shows "saveToHistory_updated a (saveToHistory_updated b (saveToHistory_updated a [])) = [a, b]"
  using assms by (simp add: saveToHistory_updated_eq)

text \<open>
  C3. \<open>saveToHistory\<close> removes every entry with the id of the new result, puts the new
  result in front and keeps the first 50 entries, in the React state and in storage alike.
  Upserting an id that is already stored never lengthens the list; after 51 results with
  pairwise different ids (into any prior list) the list is exactly the last 50 of them,
  newest first, and the first one inserted is gone; \<open>upsert A, upsert B, upsert A\<close> on the
  empty store gives \<open>[A, B]\<close>; and a list with unique ids keeps unique ids.
\<close>

theorem journal_upsert:
  "saveToHistory_updated r prev = take 50 (r # filter (\<lambda>item. ident item \<noteq> ident r) prev)
   \<and> app_history (saveToHistory r app) = saveToHistory_updated r (app_history app)
   \<and> stored (saveToHistory r app) = Some (saveToHistory_updated r (app_history app))
   \<and> (ident r \<in> ident ` set prev \<longrightarrow> length (saveToHistory_updated r prev) \<le> length prev)
   \<and> (distinct (map ident rs) \<and> length rs = 51 \<longrightarrow>
         fold saveToHistory_updated rs prev = rev (tl rs)
         \<and> length (fold saveToHistory_updated rs prev) = 50
         \<and> hd (fold saveToHistory_updated rs prev) = last rs
         \<and> ident (hd rs) \<notin> ident ` set (fold saveToHistory_updated rs prev))
   \<and> (ident a \<noteq> ident b \<longrightarrow>
         saveToHistory_updated a (saveToHistory_updated b (saveToHistory_updated a [])) = [a, b])
   \<and> (distinct (map ident prev) \<longrightarrow> distinct (map ident (saveToHistory_updated r prev)))"
proof (intro conjI impI)
  show "saveToHistory_updated r prev = take 50 (r # filter (\<lambda>item. ident item \<noteq> ident r) prev)"
    by (rule saveToHistory_updated_eq)
  show "app_history (saveToHistory r app) = saveToHistory_updated r (app_history app)"
    by (simp add: saveToHistory_def Let_def)
  show "stored (saveToHistory r app) = Some (saveToHistory_updated r (app_history app))"
    by (simp add: saveToHistory_def Let_def)
next
  assume "ident r \<in> ident ` set prev"
  then show "length (saveToHistory_updated r prev) \<le> length prev"
    by (rule upsert_existing_no_growth)
next
  assume h: "distinct (map ident rs) \<and> length rs = 51"
  then have d: "distinct (map ident rs)" and l: "length rs = 51" by simp_all
  show "fold saveToHistory_updated rs prev = rev (tl rs)" by (rule fold_upsert_51(1)[OF d l])
  show "length (fold saveToHistory_updated rs prev) = 50" by (rule fold_upsert_51(2)[OF d l])
  show "hd (fold saveToHistory_updated rs prev) = last rs" by (rule fold_upsert_51(3)[OF d l])
  show "ident (hd rs) \<notin> ident ` set (fold saveToHistory_updated rs prev)"
    by (rule fold_upsert_51(4)[OF d l])
next
  assume "ident a \<noteq> ident b"
  then show "saveToHistory_updated a (saveToHistory_updated b (saveToHistory_updated a [])) = [a, b]"
    by (rule upsert_A_B_A)
next
  assume "distinct (map ident prev)"
  then show "distinct (map ident (saveToHistory_updated r prev))" by (rule upsert_distinct)
qed

theorem journal_upsert_witness:
  "length (saveToHistory_updated (entry ''a'') [entry ''b'', entry ''a'']) \<le> 2
   \<and> length (fold saveToHistory_updated (map (\<lambda>n. entry (replicate n CHR ''x'')) [0..<51])
        [entry ''b'', entry ''a'']) = 50
   \<and> hd (fold saveToHistory_updated (map (\<lambda>n. entry (replicate n CHR ''x'')) [0..<51])
        [entry ''b'', entry ''a'']) = entry (replicate 50 CHR ''x'')
   \<and> saveToHistory_updated (entry ''a'')
        (saveToHistory_updated (entry ''b'') (saveToHistory_updated (entry ''a'') []))
      = [entry ''a'', entry ''b'']
   \<and> distinct (map ident (saveToHistory_updated (entry ''a'') [entry ''b'', entry ''a'']))"
proof -
  let ?rs = "map (\<lambda>n. entry (replicate n CHR ''x'')) [0..<51]"
  let ?prev = "[entry ''b'', entry ''a'']"
  note t = journal_upsert[where r = "entry ''a''" and prev = ?prev and rs = ?rs
      and a = "entry ''a''" and b = "entry ''b''"]
  have h1: "ident (entry ''a'') \<in> ident ` set ?prev" by (simp add: entry_def)
  have "inj_on (\<lambda>n. replicate n CHR ''x'') {0..<51}"
    by (rule inj_onI) (metis length_replicate)
  then have h2: "distinct (map ident ?rs) \<and> length ?rs = 51"
    by (simp add: distinct_map o_def entry_def)
  have h3: "ident (entry ''a'') \<noteq> ident (entry ''b'')" by (simp add: entry_def)
  have h4: "distinct (map ident ?prev)" by (simp add: entry_def)
  have l: "last ?rs = entry (replicate 50 CHR ''x'')"
    by (simp add: last_map)
  from t h1 have c1: "length (saveToHistory_updated (entry ''a'') ?prev) \<le> length ?prev" by blast
  from t h2 have c2: "length (fold saveToHistory_updated ?rs ?prev) = 50"
    and c3: "hd (fold saveToHistory_updated ?rs ?prev) = last ?rs" by blast+
  from t h3 have c4: "saveToHistory_updated (entry ''a'')
        (saveToHistory_updated (entry ''b'') (saveToHistory_updated (entry ''a'') []))
      = [entry ''a'', entry ''b'']" by blast
  from t h4 have c5: "distinct (map ident (saveToHistory_updated (entry ''a'') ?prev))" by blast
  from c1 have c1': "length (saveToHistory_updated (entry ''a'') ?prev) \<le> 2" by simp
  from c3 l have c3': "hd (fold saveToHistory_updated ?rs ?prev) = entry (replicate 50 CHR ''x'')"
    by (rule trans)
  from c1' c2 c3' c4 c5 show ?thesis by (intro conjI)
qed

lemma toggleBookmark_updated_nth:
  assumes "k < length prev"
  shows "toggleBookmark_updated i prev ! k =
     (if ident (prev ! k) = i
      then (prev ! k)\<lparr>isBookmarked := Some (\<not> truthy (isBookmarked (prev ! k)))\<rparr>
      else prev ! k)"
  using assms by (simp add: toggleBookmark_updated_def)

lemma toggleDownload_updated_nth:
  assumes "k < length prev"
  shows "toggleDownload_updated i prev ! k =
     (if ident (prev ! k) = i
      then (prev ! k)\<lparr>isDownloaded := Some (\<not> truthy (isDownloaded (prev ! k)))\<rparr>
      else prev ! k)"
  using assms by (simp add: toggleDownload_updated_def)

lemma toggle_updated_ids:
  "map ident (toggleBookmark_updated i prev) = map ident prev"
  "map ident (toggleDownload_updated i prev) = map ident prev"
  by (induction prev) (simp_all add: toggleBookmark_updated_def toggleDownload_updated_def)

lemma toggle_app_history:
  "app_history (toggleBookmark i app) = toggleBookmark_updated i (app_history app)"
  "app_history (toggleDownload i app) = toggleDownload_updated i (app_history app)"
  by (simp_all add: toggleBookmark_def toggleDownload_def Let_def split: option.split)

text \<open>
  C10. \<open>toggleBookmark\<close> and \<open>toggleDownload\<close> map over the journal: the length and the
  order of the ids are kept, and the entry at every position \<open>k\<close> is either one whose id
  differs from the argument and is left as it was, or one whose id matches, and then it is
  the old entry with only \<open>isBookmarked\<close> (respectively \<open>isDownloaded\<close>) replaced by the
  negation of its truth value, so that setting the old flag back gives the old entry.
\<close>

theorem toggle_frame:
  "app_history (toggleBookmark i app) = toggleBookmark_updated i (app_history app)
   \<and> app_history (toggleDownload i app) = toggleDownload_updated i (app_history app)
   \<and> length (toggleBookmark_updated i prev) = length prev
   \<and> length (toggleDownload_updated i prev) = length prev
   \<and> map ident (toggleBookmark_updated i prev) = map ident prev
   \<and> map ident (toggleDownload_updated i prev) = map ident prev
   \<and> (\<forall>k. k < length prev \<longrightarrow>
         (ident (prev ! k) \<noteq> i \<and> toggleBookmark_updated i prev ! k = prev ! k)
       \<or> (ident (prev ! k) = i
           \<and> toggleBookmark_updated i prev ! k
               = (prev ! k)\<lparr>isBookmarked := Some (\<not> truthy (isBookmarked (prev ! k)))\<rparr>
           \<and> truthy (isBookmarked (toggleBookmark_updated i prev ! k))
               = (\<not> truthy (isBookmarked (prev ! k)))
           \<and> (toggleBookmark_updated i prev ! k)\<lparr>isBookmarked := isBookmarked (prev ! k)\<rparr>
               = prev ! k))
   \<and> (\<forall>k. k < length prev \<longrightarrow>
         (ident (prev ! k) \<noteq> i \<and> toggleDownload_updated i prev ! k = prev ! k)
       \<or> (ident (prev ! k) = i
           \<and> toggleDownload_updated i prev ! k
               = (prev ! k)\<lparr>isDownloaded := Some (\<not> truthy (isDownloaded (prev ! k)))\<rparr>
           \<and> truthy (isDownloaded (toggleDownload_updated i prev ! k))
               = (\<not> truthy (isDownloaded (prev ! k)))
           \<and> (toggleDownload_updated i prev ! k)\<lparr>isDownloaded := isDownloaded (prev ! k)\<rparr>
               = prev ! k))"
proof (intro conjI allI impI)
  show "app_history (toggleBookmark i app) = toggleBookmark_updated i (app_history app)"
    by (rule toggle_app_history)
  show "app_history (toggleDownload i app) = toggleDownload_updated i (app_history app)"
    by (rule toggle_app_history)
  show "length (toggleBookmark_updated i prev) = length prev"
    by (simp add: toggleBookmark_updated_def)
  show "length (toggleDownload_updated i prev) = length prev"
    by (simp add: toggleDownload_updated_def)
  show "map ident (toggleBookmark_updated i prev) = map ident prev" by (rule toggle_updated_ids)
  show "map ident (toggleDownload_updated i prev) = map ident prev" by (rule toggle_updated_ids)
next
  fix k assume k: "k < length prev"
  show "(ident (prev ! k) \<noteq> i \<and> toggleBookmark_updated i prev ! k = prev ! k)
       \<or> (ident (prev ! k) = i
           \<and> toggleBookmark_updated i prev ! k
               = (prev ! k)\<lparr>isBookmarked := Some (\<not> truthy (isBookmarked (prev ! k)))\<rparr>
           \<and> truthy (isBookmarked (toggleBookmark_updated i prev ! k))
               = (\<not> truthy (isBookmarked (prev ! k)))
           \<and> (toggleBookmark_updated i prev ! k)\<lparr>isBookmarked := isBookmarked (prev ! k)\<rparr>
               = prev ! k)"
    by (cases "ident (prev ! k) = i") (simp_all add: toggleBookmark_updated_nth[OF k])
next
  fix k assume k: "k < length prev"
  show "(ident (prev ! k) \<noteq> i \<and> toggleDownload_updated i prev ! k = prev ! k)
       \<or> (ident (prev ! k) = i
           \<and> toggleDownload_updated i prev ! k
               = (prev ! k)\<lparr>isDownloaded := Some (\<not> truthy (isDownloaded (prev ! k)))\<rparr>
           \<and> truthy (isDownloaded (toggleDownload_updated i prev ! k))
               = (\<not> truthy (isDownloaded (prev ! k)))
           \<and> (toggleDownload_updated i prev ! k)\<lparr>isDownloaded := isDownloaded (prev ! k)\<rparr>
               = prev ! k)"
    by (cases "ident (prev ! k) = i") (simp_all add: toggleDownload_updated_nth[OF k])
qed

theorem toggle_frame_witness:
  "toggleBookmark_updated ''b'' [entry ''a'', entry ''b''] ! 0 = entry ''a''
   \<and> toggleBookmark_updated ''b'' [entry ''a'', entry ''b''] ! 1
       = (entry ''b'')\<lparr>isBookmarked := Some True\<rparr>
   \<and> toggleDownload_updated ''b'' [entry ''a'', entry ''b''] ! 0 = entry ''a''
   \<and> toggleDownload_updated ''b'' [entry ''a'', entry ''b''] ! 1
       = (entry ''b'')\<lparr>isDownloaded := Some True\<rparr>"
proof -
  let ?prev = "[entry ''a'', entry ''b'']"
  note t = toggle_frame[where i = "''b''" and prev = ?prev]
  have k0: "(0::nat) < length ?prev" and k1: "(1::nat) < length ?prev" by simp_all
  have i0: "ident (?prev ! 0) \<noteq> ''b''" and i1: "ident (?prev ! 1) = ''b''"
    by (simp_all add: entry_def)
  from t k0 i0 have b0: "toggleBookmark_updated ''b'' ?prev ! 0 = ?prev ! 0" by blast
  from t k1 i1 have b1: "toggleBookmark_updated ''b'' ?prev ! 1
      = (?prev ! 1)\<lparr>isBookmarked := Some (\<not> truthy (isBookmarked (?prev ! 1)))\<rparr>" by blast
  from t k0 i0 have d0: "toggleDownload_updated ''b'' ?prev ! 0 = ?prev ! 0" by blast
  from t k1 i1 have d1: "toggleDownload_updated ''b'' ?prev ! 1
      = (?prev ! 1)\<lparr>isDownloaded := Some (\<not> truthy (isDownloaded (?prev ! 1)))\<rparr>" by blast
  have f: "truthy (isBookmarked (entry ''b'')) = False" "truthy (isDownloaded (entry ''b'')) = False"
    by (simp_all add: entry_def)
  from b0 b1 d0 d1 f show ?thesis by simp
qed

section \<open>Properties of the audio timing engine\<close>

lemma playFromOffset_unloaded:
  assumes "audioBufferRef e = None \<or> audioContextRef e = None"
  shows "playFromOffset now offset e = e"
  using assms by (auto simp: playFromOffset_def split: option.splits)

lemma togglePlayback_unloaded:
  assumes "audioBufferRef e = None \<or> audioContextRef e = None" "\<not> isPlaying e"
  shows "togglePlayback now e = e"
  using assms by (simp add: togglePlayback_def playFromOffset_unloaded)

lemma dispatch_unloaded:
  assumes "unloaded_idle e"
  shows "unloaded_idle (dispatch ev e)"
proof (cases ev)
  case (Pair now x)
  from assms have u: "audioBufferRef e = None \<or> audioContextRef e = None"
    and p: "\<not> isPlaying e" and s: "sourceNodeRef e = None"
    by (simp_all add: unloaded_idle_def)
  show ?thesis
  proof (cases x)
    case Toggle
    with Pair assms show ?thesis by (simp add: togglePlayback_unloaded[OF u p])
  next
    case (Skip d)
    with Pair u p s show ?thesis by (auto simp: skip_def unloaded_idle_def Let_def)
  next
    case (Seek t)
    with Pair u p s show ?thesis by (auto simp: handleSeek_def unloaded_idle_def Let_def)
  next
    case (Speed v)
    with Pair u p s show ?thesis
      by (auto simp: changePlaybackSpeed_def unloaded_idle_def Let_def split: option.splits)
  next
    case Frame
    with Pair u p s show ?thesis by (auto simp: updateProgress_def unloaded_idle_def)
  qed
qed

lemma fold_dispatch_unloaded:
  assumes "unloaded_idle e"
  shows "unloaded_idle (fold dispatch evs e)"
  using assms by (induction evs arbitrary: e) (simp_all add: dispatch_unloaded)

lemma updateProgress_idle:
  assumes "\<not> (isPlaying e \<and> audioContextRef e \<noteq> None)"
  shows "updateProgress now e = e"
  using assms by (auto simp: updateProgress_def)

lemma updateProgress_end:
  assumes "isPlaying e" "audioContextRef e \<noteq> None"
    "duration e \<le> (now - startTimeRef e) * playbackSpeed e + offsetRef e"
  shows "updateProgress now e = e\<lparr>isPlaying := False, currentTime := duration e\<rparr>"
  using assms by (simp add: updateProgress_def Let_def)

lemma updateProgress_running:
  assumes "isPlaying e" "audioContextRef e \<noteq> None"
    "(now - startTimeRef e) * playbackSpeed e + offsetRef e < duration e"
  shows "updateProgress now e = e\<lparr>currentTime := (now - startTimeRef e) * playbackSpeed e + offsetRef e\<rparr>"
  using assms by (simp add: updateProgress_def Let_def)

lemma updateProgress_mono:
  assumes "0 \<le> playbackSpeed e" "now1 \<le> now2"
  shows "currentTime (updateProgress now1 e) \<le> currentTime (updateProgress now2 (updateProgress now1 e))"
proof (cases "isPlaying e \<and> audioContextRef e \<noteq> None")
  case False
  then show ?thesis by (simp add: updateProgress_idle)
next
  case True
  then have p: "isPlaying e" and c: "audioContextRef e \<noteq> None" by simp_all
  let ?c1 = "(now1 - startTimeRef e) * playbackSpeed e + offsetRef e"
  let ?c2 = "(now2 - startTimeRef e) * playbackSpeed e + offsetRef e"
  from assms have le: "?c1 \<le> ?c2" by (simp add: mult_right_mono)
  show ?thesis
  proof (cases "duration e \<le> ?c1")
    case True
    from updateProgress_end[OF p c True] show ?thesis by (simp add: updateProgress_idle)
  next
    case False
    then have lt: "?c1 < duration e" by simp
    let ?e1 = "e\<lparr>currentTime := ?c1\<rparr>"
    have e1: "updateProgress now1 e = ?e1" by (rule updateProgress_running[OF p c lt])
    show ?thesis
    proof (cases "duration e \<le> ?c2")
      case True
      with p c have "updateProgress now2 ?e1 = ?e1\<lparr>isPlaying := False, currentTime := duration ?e1\<rparr>"
        by (intro updateProgress_end) simp_all
      with lt show ?thesis by (simp add: e1)
    next
      case False
      with p c have "updateProgress now2 ?e1 = ?e1\<lparr>currentTime := ?c2\<rparr>"
        using updateProgress_running[of ?e1 now2] by simp
      with le show ?thesis by (simp add: e1)
    qed
  qed
qed

lemma updateProgress_anchored: "anchored now (updateProgress now e)"
proof (cases "isPlaying e \<and> audioContextRef e \<noteq> None")
  case False
  then show ?thesis by (simp add: updateProgress_idle anchored_def)
next
  case True
  then have p: "isPlaying e" and c: "audioContextRef e \<noteq> None" by simp_all
  show ?thesis
  proof (cases "duration e \<le> (now - startTimeRef e) * playbackSpeed e + offsetRef e")
    case True
    from updateProgress_end[OF p c True] show ?thesis by (simp add: anchored_def)
  next
    case False
    then have "(now - startTimeRef e) * playbackSpeed e + offsetRef e < duration e" by simp
    from updateProgress_running[OF p c this] show ?thesis by (simp add: anchored_def)
  qed
qed

lemma updateProgress_speed: "playbackSpeed (updateProgress now e) = playbackSpeed e"
  by (simp add: updateProgress_def Let_def)

lemma positions_lower_bound:
  assumes "0 \<le> playbackSpeed e" "sorted (now # nows)" "anchored now e"
    "isPlaying e \<and> audioContextRef e \<noteq> None \<longrightarrow> currentTime e \<le> duration e"
  shows "\<forall>p \<in> set (positions nows e). currentTime e \<le> p"
  using assms
proof (induction nows arbitrary: e now)
  case Nil
  then show ?case by simp
next
  case (Cons m ms)
  let ?e' = "updateProgress m e"
  from Cons.prems(2) have nm: "now \<le> m" and sm: "sorted (m # ms)" by simp_all
  have step: "currentTime e \<le> currentTime ?e'"
  proof (cases "isPlaying e \<and> audioContextRef e \<noteq> None")
    case False
    then show ?thesis by (simp add: updateProgress_idle)
  next
    case True
    then have p: "isPlaying e" and c: "audioContextRef e \<noteq> None" by simp_all
    from True Cons.prems(3) have cur: "currentTime e = (now - startTimeRef e) * playbackSpeed e + offsetRef e"
      by (simp add: anchored_def)
    from True Cons.prems(4) have cd: "currentTime e \<le> duration e" by simp
    from nm Cons.prems(1) have le: "currentTime e \<le> (m - startTimeRef e) * playbackSpeed e + offsetRef e"
      by (simp add: cur mult_right_mono)
    show ?thesis
    proof (cases "duration e \<le> (m - startTimeRef e) * playbackSpeed e + offsetRef e")
      case True
      from updateProgress_end[OF p c True] cd show ?thesis by simp
    next
      case False
      then have "(m - startTimeRef e) * playbackSpeed e + offsetRef e < duration e" by simp
      from updateProgress_running[OF p c this] le show ?thesis by simp
    qed
  qed
  have b: "isPlaying ?e' \<and> audioContextRef ?e' \<noteq> None \<longrightarrow> currentTime ?e' \<le> duration ?e'"
    by (auto simp: updateProgress_def Let_def split: if_splits)
  from Cons.prems(1) have sp: "0 \<le> playbackSpeed ?e'" by (simp add: updateProgress_speed)
  from Cons.IH[OF sp sm updateProgress_anchored b]
  have "\<forall>p \<in> set (positions ms ?e'). currentTime ?e' \<le> p" .
  with step show ?case by auto
qed

lemma positions_sorted:
  assumes "0 \<le> playbackSpeed e" "sorted nows"
  shows "sorted (positions nows e)"
  using assms
proof (induction nows arbitrary: e)
  case Nil
  then show ?case by simp
next
  case (Cons m ms)
  let ?e' = "updateProgress m e"
  from Cons.prems(1) have sp: "0 \<le> playbackSpeed ?e'" by (simp add: updateProgress_speed)
  from Cons.prems(2) have sm: "sorted ms" by simp
  have b: "isPlaying ?e' \<and> audioContextRef ?e' \<noteq> None \<longrightarrow> currentTime ?e' \<le> duration ?e'"
    by (auto simp: updateProgress_def Let_def split: if_splits)
  from positions_lower_bound[OF sp Cons.prems(2) updateProgress_anchored b]
  have "\<forall>p \<in> set (positions ms ?e'). currentTime ?e' \<le> p" .
  with Cons.IH[OF sp sm] show ?case by simp
qed


lemma playFromOffset_loaded:
  assumes "audioBufferRef e = Some buf" "audioContextRef e = Some ctx"
  shows "playFromOffset now offset e =
     e\<lparr>sourceNodeRef := Some \<lparr>buffer = buf, playbackRate = playbackSpeed e,
                                startedAt = max 0 (min offset (duration e))\<rparr>,
       isPlaying := True,
       offsetRef := max 0 (min offset (duration e)),
       startTimeRef := now,
       currentTime := max 0 (min offset (duration e))\<rparr>"
  using assms by (simp add: playFromOffset_def stopPlayback_def Let_def)

lemma handleSeek_playing:
  assumes "isPlaying e" "audioBufferRef e = Some buf" "audioContextRef e = Some ctx"
  shows "handleSeek now t e =
     e\<lparr>sourceNodeRef := Some \<lparr>buffer = buf, playbackRate = playbackSpeed e,
                                startedAt = max 0 (min t (duration e))\<rparr>,
       offsetRef := max 0 (min t (duration e)),
       startTimeRef := now,
       currentTime := max 0 (min t (duration e))\<rparr>"
proof -
  let ?e1 = "e\<lparr>currentTime := t\<rparr>"
  from assms have "handleSeek now t e = playFromOffset now t ?e1"
    by (simp add: handleSeek_def Let_def)
  also from assms have "\<dots> = ?e1\<lparr>sourceNodeRef := Some \<lparr>buffer = buf, playbackRate = playbackSpeed ?e1,
                                startedAt = max 0 (min t (duration ?e1))\<rparr>,
       isPlaying := True,
       offsetRef := max 0 (min t (duration ?e1)),
       startTimeRef := now,
       currentTime := max 0 (min t (duration ?e1))\<rparr>"
    by (intro playFromOffset_loaded) simp_all
  also from assms(1) have "\<dots> = e\<lparr>sourceNodeRef := Some \<lparr>buffer = buf, playbackRate = playbackSpeed e,
                                startedAt = max 0 (min t (duration e))\<rparr>,
       offsetRef := max 0 (min t (duration e)),
       startTimeRef := now,
       currentTime := max 0 (min t (duration e))\<rparr>"
    by simp
  finally show ?thesis .
qed

lemma handleSeek_paused:
  assumes "\<not> isPlaying e"
  shows "handleSeek now t e = e\<lparr>currentTime := t, offsetRef := t\<rparr>"
  using assms by (simp add: handleSeek_def Let_def)

lemma skip_paused:
  assumes "\<not> isPlaying e"
  shows "skip now seconds e =
     e\<lparr>offsetRef := max 0 (min (currentTime e + seconds) (duration e)),
       currentTime := max 0 (min (currentTime e + seconds) (duration e))\<rparr>"
  using assms by (simp add: skip_def Let_def)

lemma changePlaybackSpeed_currentTime:
  "currentTime (changePlaybackSpeed now speed e) = currentTime e"
  by (simp add: changePlaybackSpeed_def Let_def split: option.split)

lemma changePlaybackSpeed_anchor:
  assumes "playbackSpeed e \<noteq> speed" "audioContextRef e = Some ctx"
  shows "offsetRef (changePlaybackSpeed now speed e) = currentTime e"
    and "startTimeRef (changePlaybackSpeed now speed e) = now"
    and "playbackSpeed (changePlaybackSpeed now speed e) = speed"
    and "isPlaying (changePlaybackSpeed now speed e) = isPlaying e"
    and "duration (changePlaybackSpeed now speed e) = duration e"
    and "audioContextRef (changePlaybackSpeed now speed e) = Some ctx"
  using assms by (simp_all add: changePlaybackSpeed_def Let_def split: option.split)

lemma changePlaybackSpeed_rate:
  assumes "playbackSpeed e \<noteq> speed" "isPlaying e" "sourceNodeRef e = Some source"
  shows "sourceNodeRef (changePlaybackSpeed now speed e) = Some (source\<lparr>playbackRate := speed\<rparr>)"
  using assms by (simp add: changePlaybackSpeed_def Let_def)

lemma frame_after_speed_change:
  assumes "playbackSpeed e \<noteq> speed" "isPlaying e" "audioContextRef e = Some ctx"
  shows "currentTime (updateProgress (now + d) (changePlaybackSpeed now speed e))
     = min (duration e) (currentTime e + d * speed)"
proof -
  define e' where "e' = changePlaybackSpeed now speed e"
  note a = changePlaybackSpeed_anchor[OF assms(1,3), of now, folded e'_def]
  have p: "isPlaying e'" and c: "audioContextRef e' \<noteq> None"
    using assms(2) by (simp_all add: a)
  have "now + d - now = d" by simp
  then have cur: "(now + d - startTimeRef e') * playbackSpeed e' + offsetRef e' = currentTime e + d * speed"
    by (simp add: a)
  have ct: "currentTime (updateProgress (now + d) e') = min (duration e) (currentTime e + d * speed)"
  proof (cases "duration e \<le> currentTime e + d * speed")
    case True
    then have "duration e' \<le> (now + d - startTimeRef e') * playbackSpeed e' + offsetRef e'"
      unfolding cur by (simp add: a)
    from updateProgress_end[OF p c this] True show ?thesis by (simp add: a)
  next
    case False
    then have "(now + d - startTimeRef e') * playbackSpeed e' + offsetRef e' < duration e'"
      unfolding cur by (simp add: a)
    from updateProgress_running[OF p c this] False show ?thesis unfolding cur by simp
  qed
  then show ?thesis by (simp only: e'_def)
qed

text \<open>
  C9. Without a decoded buffer or without an audio context, \<open>playFromOffset\<close> returns at
  its guard and leaves the whole state as it was: no source node is created, \<open>isPlaying\<close>
  and the position are unchanged; \<open>togglePlayback\<close> on a paused engine calls it and is the
  same no-op. No run of the controls and frames leaves the state in which no clip is
  decoded, nothing plays and no source node exists, so playback never starts before a load.
\<close>

theorem play_before_load_noop:
  "(audioBufferRef e = None \<or> audioContextRef e = None \<longrightarrow>
      playFromOffset now offset e = e
      \<and> (\<not> isPlaying e \<longrightarrow> togglePlayback now e = e))
   \<and> (unloaded_idle e \<longrightarrow>
      unloaded_idle (fold dispatch evs e)
      \<and> \<not> isPlaying (fold dispatch evs e)
      \<and> sourceNodeRef (fold dispatch evs e) = None)"
proof (intro conjI impI)
  assume u: "audioBufferRef e = None \<or> audioContextRef e = None"
  then show "playFromOffset now offset e = e" by (rule playFromOffset_unloaded)
  assume "\<not> isPlaying e"
  with u show "togglePlayback now e = e" by (rule togglePlayback_unloaded)
next
  assume "unloaded_idle e"
  then have i: "unloaded_idle (fold dispatch evs e)" by (rule fold_dispatch_unloaded)
  then show "unloaded_idle (fold dispatch evs e)" .
  from i show "\<not> isPlaying (fold dispatch evs e)" by (simp add: unloaded_idle_def)
  from i show "sourceNodeRef (fold dispatch evs e) = None" by (simp add: unloaded_idle_def)
qed

theorem play_before_load_noop_witness:
  "playFromOffset 2 0 initialEngine = initialEngine
   \<and> togglePlayback 2 initialEngine = initialEngine
   \<and> \<not> isPlaying (fold dispatch [(1, Toggle), (2, Seek 5), (3, Toggle), (4, Frame), (5, Skip 10)] initialEngine)
   \<and> sourceNodeRef (fold dispatch [(1, Toggle), (2, Seek 5), (3, Toggle), (4, Frame), (5, Skip 10)] initialEngine) = None"
proof -
  have u: "audioBufferRef initialEngine = None \<or> audioContextRef initialEngine = None"
    and p: "\<not> isPlaying initialEngine" and i: "unloaded_idle initialEngine"
    by (simp_all add: initialEngine_def unloaded_idle_def)
  note t = play_before_load_noop[where e = initialEngine and now = 2 and offset = 0
      and evs = "[(1, Toggle), (2, Seek 5), (3, Toggle), (4, Frame), (5, Skip 10)]"]
  from t u p i show ?thesis by blast
qed

text \<open>
  C6. With a non-negative speed, the positions that frames at non-decreasing clock
  readings produce are non-decreasing, whatever the state the frames start from: for two
  successive frames and for any run of frames. When a frame of a playing engine computes
  a position at or past \<open>duration\<close>, the frame leaves \<open>isPlaying\<close> false and the position
  equal to \<open>duration\<close>, and later frames change nothing.
\<close>

theorem progress_monotone_and_pinned:
  "(0 \<le> playbackSpeed e \<and> now1 \<le> now2 \<longrightarrow>
      currentTime (updateProgress now1 e) \<le> currentTime (updateProgress now2 (updateProgress now1 e)))
   \<and> (0 \<le> playbackSpeed e \<and> sorted nows \<longrightarrow> sorted (positions nows e))
   \<and> (isPlaying e \<and> audioContextRef e \<noteq> None
        \<and> duration e \<le> (now - startTimeRef e) * playbackSpeed e + offsetRef e \<longrightarrow>
      \<not> isPlaying (updateProgress now e)
      \<and> currentTime (updateProgress now e) = duration e
      \<and> updateProgress now' (updateProgress now e) = updateProgress now e)"
proof (intro conjI impI)
  assume "0 \<le> playbackSpeed e \<and> now1 \<le> now2"
  then show "currentTime (updateProgress now1 e) \<le> currentTime (updateProgress now2 (updateProgress now1 e))"
    by (simp add: updateProgress_mono)
next
  assume "0 \<le> playbackSpeed e \<and> sorted nows"
  then show "sorted (positions nows e)" by (simp add: positions_sorted)
next
  assume h: "isPlaying e \<and> audioContextRef e \<noteq> None
        \<and> duration e \<le> (now - startTimeRef e) * playbackSpeed e + offsetRef e"
  then have eq: "updateProgress now e = e\<lparr>isPlaying := False, currentTime := duration e\<rparr>"
    by (intro updateProgress_end) simp_all
  show "\<not> isPlaying (updateProgress now e)" by (simp add: eq)
  show "currentTime (updateProgress now e) = duration e" by (simp add: eq)
  show "updateProgress now' (updateProgress now e) = updateProgress now e"
    by (rule updateProgress_idle) (simp add: eq)
qed

theorem progress_monotone_and_pinned_witness:
  "sorted (positions [1, 2, 40, 50] (playFromOffset 0 0 (loaded 30)))
   \<and> positions [1, 2, 40, 50] (playFromOffset 0 0 (loaded 30)) = [1, 2, 30, 30]
   \<and> \<not> isPlaying (updateProgress 40 (playFromOffset 0 0 (loaded 30)))
   \<and> currentTime (updateProgress 40 (playFromOffset 0 0 (loaded 30))) = 30"
proof -
  let ?e = "playFromOffset 0 0 (loaded 30)"
  have e: "?e = \<lparr>isPlaying = True, playbackSpeed = 1, currentTime = 0, duration = 30,
       startTimeRef = 0, offsetRef = 0, audioBufferRef = Some \<lparr>buf_duration = 30\<rparr>,
       audioContextRef = Some AudioContext,
       sourceNodeRef = Some \<lparr>buffer = \<lparr>buf_duration = 30\<rparr>, playbackRate = 1, startedAt = 0\<rparr>\<rparr>"
    by (simp add: playFromOffset_def stopPlayback_def loaded_def initialEngine_def Let_def)
  have h1: "0 \<le> playbackSpeed ?e \<and> sorted [1, 2, 40, 50::real]"
    by (simp add: e)
  have h2: "isPlaying ?e \<and> audioContextRef ?e \<noteq> None
        \<and> duration ?e \<le> (40 - startTimeRef ?e) * playbackSpeed ?e + offsetRef ?e"
    by (simp add: e)
  note t = progress_monotone_and_pinned[where e = ?e and nows = "[1, 2, 40, 50]" and now = 40]
  from t h1 have c1: "sorted (positions [1, 2, 40, 50] ?e)" by blast
  from t h2 have c3: "\<not> isPlaying (updateProgress 40 ?e)"
    and c4: "currentTime (updateProgress 40 ?e) = duration ?e" by blast+
  have d: "duration ?e = 30" by (simp add: e)
  have c2: "positions [1, 2, 40, 50] ?e = [1, 2, 30, 30]"
    by (simp add: e updateProgress_def Let_def)
  from c1 c2 c3 c4 d show ?thesis by simp
qed

lemma speed_change_offset_is_last_frame:
  assumes "playbackSpeed e \<noteq> speed" "isPlaying e" "audioContextRef e = Some ctx"
    "currentTime e \<le> duration e"
  shows "currentTime (updateProgress now (changePlaybackSpeed now speed e)) = currentTime e"
  using frame_after_speed_change[OF assms(1,2,3), of now 0] assms(4) by simp

text \<open>
  C5. \<open>changePlaybackSpeed\<close> moves the anchor to the clock reading of the change, but it
  takes the new offset from \<open>currentTime\<close>, the position that the last frame computed, not
  from the position at the clock reading of the change. On a 30-second clip played from 0
  at clock 0 at speed 1, with the last frame at clock 9.99: a frame at clock 10 reads 10
  without the change and 9.99 right after \<open>setSpeed(2)\<close> at clock 10, so the position jumps
  back by the time since the last frame; 5 seconds later the position is 19.99, not 20.
  With no frame at all between \<open>play(0)\<close> and the change the same reading is 10.
\<close>

theorem speed_change_jumps_back:
  "currentTime (updateProgress 10 (updateProgress 9.99 (playFromOffset 0 0 (loaded 30)))) = 10
   \<and> currentTime (updateProgress 10
         (changePlaybackSpeed 10 2 (updateProgress 9.99 (playFromOffset 0 0 (loaded 30))))) = 9.99
   \<and> currentTime (updateProgress 15
         (changePlaybackSpeed 10 2 (updateProgress 9.99 (playFromOffset 0 0 (loaded 30))))) = 19.99
   \<and> currentTime (updateProgress 15
         (changePlaybackSpeed 10 2 (playFromOffset 0 0 (loaded 30)))) = 10"
  by (simp add: playFromOffset_def stopPlayback_def updateProgress_def changePlaybackSpeed_def
      loaded_def initialEngine_def Let_def)

text \<open>
  C4. A seek on a playing engine restarts playback from the target clamped to
  \<open>[0, duration]\<close> with the anchor at the clock reading of the seek; a seek on a paused
  engine starts nothing and stores the target as it is, unclamped, in the offset and the
  position. At mount (no clip, \<open>duration = 0\<close>, paused) the slider ranges over \<open>[0, 100]\<close>
  (\<open>max={duration || 100}\<close>), so the target 50 is stored as offset 50 although the clamp to
  \<open>[0, 0]\<close> is 0; \<open>skip\<close>, the sibling control, clamps on the paused path too.
\<close>

theorem seek_paused_not_clamped:
  "\<not> isPlaying initialEngine \<and> duration initialEngine = 0
   \<and> offsetRef (handleSeek 0 50 initialEngine) = 50
   \<and> currentTime (handleSeek 0 50 initialEngine) = 50
   \<and> max 0 (min 50 (duration initialEngine)) = 0
   \<and> offsetRef (skip 0 50 initialEngine) = 0"
  by (simp add: handleSeek_def skip_def initialEngine_def Let_def)

section \<open>Properties of the section parser\<close>

lemma splitRegex_nonempty: "splitRegex m s \<noteq> []"
  by (induction m s rule: splitRegex.induct) (auto split: list.splits)

lemma splitChar_nonempty: "splitChar d s \<noteq> []"
  by (induction s) (auto split: list.splits)

lemma splitRegex_Cons_nomatch:
  assumes "m (c # cs) = 0"
  shows "splitRegex m (c # cs) = (c # hd (splitRegex m cs)) # tl (splitRegex m cs)"
  using assms splitRegex_nonempty[of m cs] by (cases "splitRegex m cs") simp_all

lemma splitRegex_Cons_match:
  assumes "0 < m (c # cs)"
  shows "splitRegex m (c # cs) = [] # splitRegex m (drop (m (c # cs)) (c # cs))"
  using assms by simp

lemma interleave_Cons_head:
  "interleave ((c # p) # ps) seps = c # interleave (p # ps) seps"
  by (cases seps) simp_all

lemma interleave_split:
  "interleave (splitRegex m s) (splitSeparators m s) = s"
proof (induction m s rule: splitRegex.induct)
  case (1 m)
  show ?case by simp
next
  case (2 m c cs)
  show ?case
  proof (cases "0 < m (c # cs)")
    case True
    with 2 show ?thesis by simp
  next
    case False
    then have z: "m (c # cs) = 0" by simp
    from 2(2)[OF False] have ih: "interleave (splitRegex m cs) (splitSeparators m cs) = cs" .
    obtain p ps where sp: "splitRegex m cs = p # ps"
      using splitRegex_nonempty[of m cs] by (cases "splitRegex m cs") auto
    have "interleave (splitRegex m (c # cs)) (splitSeparators m (c # cs))
        = interleave ((c # p) # ps) (splitSeparators m cs)"
      using z sp by simp
    also have "\<dots> = c # interleave (p # ps) (splitSeparators m cs)"
      by (rule interleave_Cons_head)
    also have "\<dots> = c # cs" using ih sp by simp
    finally show ?thesis .
  qed
qed

lemma isSpace_not_hash: "isSpace c \<Longrightarrow> c \<noteq> CHR ''#''"
  by (auto simp: isSpace_def)

lemma headerMatch_shape:
  assumes "0 < headerMatch s"
  shows "\<exists>w rest. s = CHR ''#'' # CHR ''#'' # w # rest \<and> isSpace w
     \<and> headerMatch s = 2 + length (takeWhile isSpace (w # rest))"
proof -
  from assms obtain a b c cs where s: "s = a # b # c # cs"
    by (cases s rule: headerMatch.cases) auto
  with assms show ?thesis by (auto split: if_splits)
qed

lemma headerMatch_le: "headerMatch s \<le> length s"
proof (cases "0 < headerMatch s")
  case True
  from headerMatch_shape[OF True] obtain w rest where
    s: "s = CHR ''#'' # CHR ''#'' # w # rest"
    and k: "headerMatch s = 2 + length (takeWhile isSpace (w # rest))" by blast
  have "length (takeWhile isSpace (w # rest)) \<le> length (w # rest)" by (rule length_takeWhile_le)
  with k s show ?thesis by simp
next
  case False
  then show ?thesis by simp
qed

lemma headerMatch_space_head: "isSpace c \<Longrightarrow> headerMatch (c # cs) = 0"
  by (cases "(c # cs)" rule: headerMatch.cases) (auto dest: isSpace_not_hash)

lemma countMarkers_spaces:
  "list_all isSpace ws \<Longrightarrow> countMarkers (ws @ rest) = countMarkers rest"
  by (induction ws) (simp_all add: headerMatch_space_head)

lemma countMarkers_skip:
  assumes "0 < headerMatch s"
  shows "countMarkers s = Suc (countMarkers (drop (headerMatch s) s))"
proof -
  from headerMatch_shape[OF assms] obtain w rest where
    s: "s = CHR ''#'' # CHR ''#'' # w # rest" and w: "isSpace w"
    and k: "headerMatch s = 2 + length (takeWhile isSpace (w # rest))" by blast
  let ?ws = "takeWhile isSpace (w # rest)"
  let ?r = "dropWhile isSpace (w # rest)"
  have split: "w # rest = ?ws @ ?r" by simp
  have d: "drop (headerMatch s) s = ?r"
    unfolding k s using w by (simp add: dropWhile_eq_drop)
  have h1: "headerMatch (CHR ''#'' # w # rest) = 0"
    using w by (cases rest) (auto dest: isSpace_not_hash)
  have "list_all isSpace ?ws" by (simp add: list_all_iff) (meson set_takeWhileD)
  then have "countMarkers (?ws @ ?r) = countMarkers ?r" by (rule countMarkers_spaces)
  then have c: "countMarkers (w # rest) = countMarkers ?r" by (simp only: split[symmetric])
  have "countMarkers s = 1 + countMarkers (CHR ''#'' # w # rest)"
    using assms unfolding s by simp
  also have "\<dots> = 1 + countMarkers (w # rest)" using h1 by simp
  finally show ?thesis using c d by simp
qed

lemma length_split_header: "length (splitRegex headerMatch s) = Suc (countMarkers s)"
proof (induction "headerMatch" s rule: splitRegex.induct)
  case 1
  show ?case by simp
next
  case (2 c cs)
  show ?case
  proof (cases "0 < headerMatch (c # cs)")
    case True
    from 2(1)[OF True] countMarkers_skip[OF True] True show ?thesis
      by (simp only: splitRegex_Cons_match[of headerMatch c cs, OF True]) simp
  next
    case False
    then have z: "headerMatch (c # cs) = 0" by simp
    from 2(2)[OF False] z show ?thesis
      using splitRegex_nonempty[of headerMatch cs]
      by (simp only: splitRegex_Cons_nomatch[of headerMatch c cs, OF z]) (cases "splitRegex headerMatch cs", simp_all)
  qed
qed

lemma hd_split_header: "hd (splitRegex headerMatch s) = beforeFirstMarker s"
proof (induction s)
  case Nil
  show ?case by simp
next
  case (Cons c cs)
  show ?case
  proof (cases "0 < headerMatch (c # cs)")
    case True
    then show ?thesis by (simp only: splitRegex_Cons_match[of headerMatch c cs, OF True] beforeFirstMarker.simps) simp
  next
    case False
    then have z: "headerMatch (c # cs) = 0" by simp
    with Cons show ?thesis
      by (simp only: splitRegex_Cons_nomatch[of headerMatch c cs, OF z] beforeFirstMarker.simps) simp
  qed
qed

lemma separators_are_markers:
  "list_all isMarker (splitSeparators headerMatch s)"
proof (induction "headerMatch" s rule: splitSeparators.induct)
  case 1
  show ?case by simp
next
  case (2 c cs)
  show ?case
  proof (cases "0 < headerMatch (c # cs)")
    case True
    from headerMatch_shape[OF True] obtain w rest where
      s: "c # cs = CHR ''#'' # CHR ''#'' # w # rest" and w: "isSpace w"
      and k: "headerMatch (c # cs) = 2 + length (takeWhile isSpace (w # rest))" by blast
    have "take (headerMatch (c # cs)) (c # cs) = ''##'' @ takeWhile isSpace (w # rest)"
      unfolding k s using w by (simp add: takeWhile_eq_take[symmetric])
    moreover have "list_all isSpace (takeWhile isSpace (w # rest))"
      by (simp add: list_all_iff) (meson set_takeWhileD)
    moreover have "takeWhile isSpace (w # rest) \<noteq> []" using w by simp
    ultimately have "isMarker (take (headerMatch (c # cs)) (c # cs))"
      by (simp add: isMarker_def)
    with 2(1)[OF True] True show ?thesis by simp
  next
    case False
    with 2(2)[OF False] show ?thesis by simp
  qed
qed

lemma introSection_total:
  "\<exists>p. introSection r = Inr p \<and> length p = (if trim r = [] then 0 else 1)"
  using splitChar_nonempty[of "CHR 0x0A" "trim r"]
  by (cases "splitChar (CHR 0x0A) (trim r)") (simp_all add: introSection_def)

lemma headedSection_total: "\<exists>s. headedSection r = Inr s"
  using splitChar_nonempty[of "CHR 0x0A" r]
  by (cases "splitChar (CHR 0x0A) r") (simp_all add: headedSection_def)

lemma headedSections_total:
  "\<exists>ss. headedSections raws = Inr ss \<and> length ss = length raws
     \<and> (\<forall>i < length raws. headedSection (raws ! i) = Inr (ss ! i))"
proof (induction raws)
  case Nil
  show ?case by simp
next
  case (Cons r raws)
  from headedSection_total obtain s where s: "headedSection r = Inr s" by blast
  from Cons obtain ss where ss: "headedSections raws = Inr ss" "length ss = length raws"
    "\<forall>i < length raws. headedSection (raws ! i) = Inr (ss ! i)" by blast
  have "\<forall>i < length (r # raws). headedSection ((r # raws) ! i) = Inr ((s # ss) ! i)"
    using s ss(3) by (auto simp: nth_Cons split: nat.split)
  with s ss show ?case by simp
qed

lemma sections_structure:
  "\<exists>intro headed. sections h = Inr (intro @ headed)
     \<and> introSection (hd (splitRegex headerMatch h)) = Inr intro
     \<and> length intro = (if trim (beforeFirstMarker h) = [] then 0 else 1)
     \<and> length headed = countMarkers h
     \<and> (\<forall>i < countMarkers h. headedSection (splitRegex headerMatch h ! Suc i) = Inr (headed ! i))"
proof -
  obtain raw0 raws where raw: "splitRegex headerMatch h = raw0 # raws"
    using splitRegex_nonempty[of headerMatch h] by (cases "splitRegex headerMatch h") auto
  from length_split_header[of h] raw have n: "length raws = countMarkers h" by simp
  from hd_split_header[of h] raw have r0: "raw0 = beforeFirstMarker h" by simp
  from introSection_total[of raw0] obtain p where
    p: "introSection raw0 = Inr p" "length p = (if trim raw0 = [] then 0 else 1)" by blast
  from headedSections_total[of raws] obtain ss where
    ss: "headedSections raws = Inr ss" "length ss = length raws"
      "\<forall>i < length raws. headedSection (raws ! i) = Inr (ss ! i)" by blast
  have "sections h = Inr (p @ ss)" by (simp add: sections_def raw p ss)
  with p ss n r0 raw show ?thesis by auto
qed

lemma length_split_separators:
  "length (splitRegex m s) = Suc (length (splitSeparators m s))"
proof (induction m s rule: splitRegex.induct)
  case (1 m)
  show ?case by simp
next
  case (2 m c cs)
  show ?case
  proof (cases "0 < m (c # cs)")
    case True
    with 2(1)[OF True] show ?thesis by simp
  next
    case False
    then have z: "m (c # cs) = 0" by simp
    from 2(2)[OF False] show ?thesis
      using splitRegex_nonempty[of m cs] z
      by (cases "splitRegex m cs") simp_all
  qed
qed

lemma sections_scenario: "sections scenarioText = Inr scenarioSections"
  by code_simp

text \<open>
  C7 as stated fails on a text whose part before the first marker is not empty but blank:
  in \<open>'' ## A''\<close> one space stands before the one marker, and the parser gives one
  section, not two.
\<close>

theorem sections_blank_lead_counterexample:
  "beforeFirstMarker '' ## A'' = '' '' \<and> countMarkers '' ## A'' = 1
   \<and> sections '' ## A'' = Inr [\<lparr>title = ''A'', content = []\<rparr>]
   \<and> length [\<lparr>title = ''A'', content = []\<rparr>] \<noteq> countMarkers '' ## A'' + 1"
  by code_simp

text \<open>
  C7, amended. A header marker is \<open>##\<close> followed by one or more whitespace characters.
  For every text \<open>h\<close> the parser returns a section list and no error. The list has one
  section for each of the \<open>countMarkers h\<close> markers, and one more in front exactly when the
  text before the first marker is not blank (has a character that is not whitespace). The
  order is the order of the source: the pieces of the split, with the markers between them,
  spell \<open>h\<close>; the first piece is the text before the first marker and gives the leading
  section; the \<open>i\<close>-th piece after it gives the \<open>i\<close>-th of the other sections. The result
  depends on the text alone, and the empty text gives the empty list.
\<close>

theorem sections_count_and_order:
  "(\<exists>secs. sections h = Inr secs)
   \<and> (\<forall>secs. sections h = Inr secs \<longrightarrow>
         length secs = countMarkers h + (if trim (beforeFirstMarker h) = [] then 0 else 1)
         \<and> (trim (beforeFirstMarker h) \<noteq> [] \<longrightarrow>
               introSection (beforeFirstMarker h) = Inr [secs ! 0])
         \<and> (\<forall>i < countMarkers h.
               headedSection (splitRegex headerMatch h ! Suc i)
                 = Inr (secs ! (length secs - countMarkers h + i))))
   \<and> interleave (splitRegex headerMatch h) (splitSeparators headerMatch h) = h
   \<and> hd (splitRegex headerMatch h) = beforeFirstMarker h
   \<and> length (splitSeparators headerMatch h) = countMarkers h
   \<and> list_all isMarker (splitSeparators headerMatch h)
   \<and> (h' = h \<longrightarrow> sections h' = sections h)
   \<and> sections [] = Inr []"
proof -
  from sections_structure[of h] obtain intro headed where
    s: "sections h = Inr (intro @ headed)"
    and i0: "introSection (hd (splitRegex headerMatch h)) = Inr intro"
    and li: "length intro = (if trim (beforeFirstMarker h) = [] then 0 else 1)"
    and lh: "length headed = countMarkers h"
    and nth: "\<forall>i < countMarkers h. headedSection (splitRegex headerMatch h ! Suc i) = Inr (headed ! i)"
    by blast
  have total: "\<exists>secs. sections h = Inr secs" using s by blast
  have shape: "length secs = countMarkers h + (if trim (beforeFirstMarker h) = [] then 0 else 1)
       \<and> (trim (beforeFirstMarker h) \<noteq> [] \<longrightarrow>
             introSection (beforeFirstMarker h) = Inr [secs ! 0])
       \<and> (\<forall>i < countMarkers h.
             headedSection (splitRegex headerMatch h ! Suc i)
               = Inr (secs ! (length secs - countMarkers h + i)))"
    if "sections h = Inr secs" for secs
  proof -
    from that s have secs: "secs = intro @ headed" by simp
    have a: "length secs = countMarkers h + (if trim (beforeFirstMarker h) = [] then 0 else 1)"
      using li lh by (simp add: secs)
    have b: "introSection (beforeFirstMarker h) = Inr [secs ! 0]"
      if "trim (beforeFirstMarker h) \<noteq> []"
    proof -
      from that li have "length intro = 1" by simp
      then obtain x where x: "intro = [x]" by (cases intro) auto
      with i0 show ?thesis by (simp add: secs hd_split_header)
    qed
    have c: "headedSection (splitRegex headerMatch h ! Suc i)
        = Inr (secs ! (length secs - countMarkers h + i))" if "i < countMarkers h" for i
    proof -
      have "length secs - countMarkers h = length intro" using lh by (simp add: secs)
      then have "secs ! (length secs - countMarkers h + i) = headed ! i"
        by (simp add: secs nth_append)
      with nth that show ?thesis by simp
    qed
    from a b c show ?thesis by blast
  qed
  have len: "length (splitSeparators headerMatch h) = countMarkers h"
    using length_split_separators[of headerMatch h] length_split_header[of h] by simp
  have empty: "sections [] = Inr []"
    by (simp add: sections_def introSection_def trim_def)
  from total shape interleave_split[of headerMatch h] hd_split_header[of h] len
    separators_are_markers[of h] empty
  show ?thesis by blast
qed

theorem sections_count_and_order_witness:
  "sections scenarioText = Inr scenarioSections
   \<and> countMarkers scenarioText = 2
   \<and> trim (beforeFirstMarker scenarioText) = ''Intro text.''
   \<and> length scenarioSections = countMarkers scenarioText + 1
   \<and> introSection (beforeFirstMarker scenarioText) = Inr [scenarioSections ! 0]
   \<and> headedSection (splitRegex headerMatch scenarioText ! Suc 0) = Inr (scenarioSections ! 1)
   \<and> headedSection (splitRegex headerMatch scenarioText ! Suc 1) = Inr (scenarioSections ! 2)"
proof -
  note t = sections_count_and_order[where h = scenarioText and h' = scenarioText]
  have s: "sections scenarioText = Inr scenarioSections" by (rule sections_scenario)
  have c: "countMarkers scenarioText = 2" and b: "trim (beforeFirstMarker scenarioText) = ''Intro text.''"
    by code_simp+
  have l: "length scenarioSections = 3" by (simp add: scenarioSections_def)
  from b have nb: "trim (beforeFirstMarker scenarioText) \<noteq> []" by simp
  from t s have a1: "length scenarioSections
      = countMarkers scenarioText + (if trim (beforeFirstMarker scenarioText) = [] then 0 else 1)"
    by blast
  from t s nb have a2: "introSection (beforeFirstMarker scenarioText) = Inr [scenarioSections ! 0]"
    by blast
  from t s have a3: "\<forall>i < countMarkers scenarioText.
      headedSection (splitRegex headerMatch scenarioText ! Suc i)
        = Inr (scenarioSections ! (length scenarioSections - countMarkers scenarioText + i))"
    by blast
  from a3[rule_format, of 0] c l
  have a4: "headedSection (splitRegex headerMatch scenarioText ! Suc 0) = Inr (scenarioSections ! 1)"
    by simp
  from a3[rule_format, of 1] c l
  have a5: "headedSection (splitRegex headerMatch scenarioText ! Suc 1) = Inr (scenarioSections ! 2)"
    by (simp add: numeral_2_eq_2)
  from a1 nb have a1': "length scenarioSections = countMarkers scenarioText + 1" by simp
  from s c b a1' a2 a4 a5 show ?thesis by (intro conjI)
qed

text \<open>
  C1 as stated fails: on the scenario text the first title is the first line of the
  leading text, \<open>Intro text.\<close>, which is shorter than 30 characters, not \<open>Introduction\<close>;
  and the sentence \<open>Renovated in 2005.\<close> holds none of \<open>rebuild\<close>, \<open>modern\<close>, \<open>today\<close> (the
  title \<open>Modern Day\<close> is not part of the sentence), so its theme is \<open>General History\<close>.
\<close>

theorem scenario_counterexample:
  "sections scenarioText = Inr scenarioSections
   \<and> map title scenarioSections \<noteq> [''Introduction'', ''Origins'', ''Modern Day'']
   \<and> map (\<lambda>n. (year n, theme n)) (arFactNodes (\<lambda>i. 0) scenarioSections)
       \<noteq> [(''1191'', ''Royal Era''), (''2005'', ''Modernization'')]"
  by code_simp

text \<open>
  C1, amended. On the scenario text the parser yields exactly three sections, titled
  \<open>Intro text.\<close>, \<open>Origins\<close> and \<open>Modern Day\<close> in this order, and the extractor, whatever the
  random numbers, yields exactly two nodes from them: year \<open>1191\<close> with theme \<open>Royal Era\<close>
  from section 1 and year \<open>2005\<close> with theme \<open>General History\<close> from section 2.
\<close>

theorem scenario_sections_and_facts:
  "sections scenarioText = Inr scenarioSections
   \<and> map title scenarioSections = [''Intro text.'', ''Origins'', ''Modern Day'']
   \<and> map (\<lambda>n. (node_id n, year n, node_text n, theme n, sectionIdx n))
         (arFactNodes random scenarioSections)
       = [(''fact-1-0'', ''1191'', ''Built in 1191 by King X.'', ''Royal Era'', 1),
          (''fact-2-0'', ''2005'', ''Renovated in 2005.'', ''General History'', 2)]"
  by code_simp

section \<open>Properties of the fact extractor\<close>

lemma yearAt_shape:
  assumes "yearAt s"
  shows "yearShape (take 4 s)"
proof -
  from assms obtain a b c d rest where s: "s = a # b # c # d # rest"
    by (cases s rule: yearAt.cases) auto
  with assms show ?thesis by (auto simp: yearShape_def isDigit_def)
qed

lemma matchYears_shape:
  "y \<in> set (matchYears p s) \<Longrightarrow> yearShape y"
proof (induction p s rule: matchYears.induct)
  case (1 p)
  then show ?case by simp
next
  case (2 p c cs)
  show ?case
  proof (cases "\<not> p \<and> yearAt (c # cs)")
    case True
    with 2(3) have "y = take 4 (c # cs) \<or> y \<in> set (matchYears True (drop 4 (c # cs)))"
      by (simp del: take_Suc_Cons drop_Suc_Cons)
    then show ?thesis
    proof
      assume "y = take 4 (c # cs)"
      with True yearAt_shape[of "c # cs"] show ?thesis by simp
    next
      assume "y \<in> set (matchYears True (drop 4 (c # cs)))"
      with 2(1)[OF True] show ?thesis .
    qed
  next
    case False
    with 2(3) have "y \<in> set (matchYears (isWord c) cs)" by auto
    with 2(2)[OF False] show ?thesis .
  qed
qed

lemma yearShape_matches:
  assumes "yearShape y"
  shows "matchYears False y = [y]" "length y = 4" "list_all isDigit y"
    "hd y = CHR ''1'' \<or> take 2 y = ''20''"
proof -
  from assms obtain a b c d where y: "y = [a, b, c, d]" and dg: "isDigit a" "isDigit b" "isDigit c" "isDigit d"
    and alt: "a = CHR ''1'' \<or> (a = CHR ''2'' \<and> b = CHR ''0'')"
    by (auto simp: yearShape_def)
  from dg alt show "matchYears False y = [y]" by (auto simp: y)
  show "length y = 4" by (simp add: y)
  from dg show "list_all isDigit y" by (simp add: y)
  from alt show "hd y = CHR ''1'' \<or> take 2 y = ''20''" by (auto simp: y)
qed

lemma sentenceNodes_length:
  "length nodes \<le> 8 \<Longrightarrow> length (sentenceNodes random sIdx idx ss nodes) \<le> 8"
  by (induction ss arbitrary: idx nodes) (auto split: list.splits)

lemma sectionNodes_length:
  "length nodes \<le> 8 \<Longrightarrow> length (sectionNodes random sIdx secs nodes) \<le> 8"
  by (induction secs arbitrary: sIdx nodes) (simp_all add: sentenceNodes_length)

lemma sentenceNodes_origin:
  assumes "n \<in> set (sentenceNodes random sIdx idx ss nodes)"
  shows "n \<in> set nodes \<or> (\<exists>s \<in> set ss. \<exists>y ys k j.
      matchYears False s = y # ys \<and> n = factNode random k sIdx j s y)"
  using assms
proof (induction ss arbitrary: idx nodes)
  case Nil
  then show ?case by simp
next
  case (Cons s ss)
  let ?nodes' = "(case matchYears False s of [] \<Rightarrow> nodes
      | match0 # _ \<Rightarrow> if length nodes < 8
          then nodes @ [factNode random (length nodes) sIdx idx s match0] else nodes)"
  from Cons.prems have "n \<in> set (sentenceNodes random sIdx (Suc idx) ss ?nodes')" by simp
  from Cons.IH[OF this] have "n \<in> set ?nodes' \<or> (\<exists>s \<in> set ss. \<exists>y ys k j.
      matchYears False s = y # ys \<and> n = factNode random k sIdx j s y)" .
  then show ?case
  proof
    assume "n \<in> set ?nodes'"
    then have "n \<in> set nodes \<or> (\<exists>y ys. matchYears False s = y # ys
        \<and> n = factNode random (length nodes) sIdx idx s y)"
      by (auto split: list.splits if_splits)
    then show ?thesis by auto
  next
    assume "\<exists>s \<in> set ss. \<exists>y ys k j. matchYears False s = y # ys \<and> n = factNode random k sIdx j s y"
    then show ?thesis by auto
  qed
qed

lemma sectionNodes_origin:
  assumes "n \<in> set (sectionNodes random sIdx secs nodes)"
  shows "n \<in> set nodes \<or> (\<exists>i < length secs.
      \<exists>s \<in> set (splitRegex sentenceMatch (content (secs ! i))). \<exists>y ys k j.
        matchYears False s = y # ys \<and> n = factNode random k (sIdx + i) j s y)"
  using assms
proof (induction secs arbitrary: sIdx nodes)
  case Nil
  then show ?case by simp
next
  case (Cons sec secs)
  let ?nodes' = "sentenceNodes random sIdx 0 (splitRegex sentenceMatch (content sec)) nodes"
  from Cons.prems have "n \<in> set (sectionNodes random (Suc sIdx) secs ?nodes')" by simp
  from Cons.IH[OF this] have "n \<in> set ?nodes' \<or> (\<exists>i < length secs.
      \<exists>s \<in> set (splitRegex sentenceMatch (content (secs ! i))). \<exists>y ys k j.
        matchYears False s = y # ys \<and> n = factNode random k (Suc sIdx + i) j s y)" .
  then show ?case
  proof
    assume "n \<in> set ?nodes'"
    from sentenceNodes_origin[OF this]
    have "n \<in> set nodes \<or> (\<exists>s \<in> set (splitRegex sentenceMatch (content ((sec # secs) ! 0))).
        \<exists>y ys k j. matchYears False s = y # ys \<and> n = factNode random k (sIdx + 0) j s y)"
      by simp
    then show ?thesis by (metis length_Cons zero_less_Suc)
  next
    assume "\<exists>i < length secs.
      \<exists>s \<in> set (splitRegex sentenceMatch (content (secs ! i))). \<exists>y ys k j.
        matchYears False s = y # ys \<and> n = factNode random k (Suc sIdx + i) j s y"
    then obtain i s y ys k j where i: "i < length secs"
      and s: "s \<in> set (splitRegex sentenceMatch (content (secs ! i)))"
      and m: "matchYears False s = y # ys" and n: "n = factNode random k (Suc sIdx + i) j s y"
      by blast
    have "Suc i < length (sec # secs)" using i by simp
    moreover have "s \<in> set (splitRegex sentenceMatch (content ((sec # secs) ! Suc i)))"
      using s by simp
    moreover have "n = factNode random k (sIdx + Suc i) j s y" using n by simp
    ultimately show ?thesis using m by blast
  qed
qed

lemma arFactNodes_origin:
  assumes "n \<in> set (arFactNodes random secs)"
  shows "sectionIdx n < length secs
     \<and> (\<exists>s \<in> set (splitRegex sentenceMatch (content (secs ! sectionIdx n))).
           matchYears False s \<noteq> [] \<and> year n = hd (matchYears False s) \<and> theme n = themeOf s)"
proof -
  from assms have "n \<in> set (sectionNodes random 0 secs [])" by (simp add: arFactNodes_def)
  from sectionNodes_origin[OF this] obtain i s y ys k j where i: "i < length secs"
    and s: "s \<in> set (splitRegex sentenceMatch (content (secs ! i)))"
    and m: "matchYears False s = y # ys" and n: "n = factNode random k (0 + i) j s y"
    by auto
  from n have f: "sectionIdx n = i" "year n = y" "theme n = themeOf s"
    by (simp_all add: factNode_def)
  from m f have "matchYears False s \<noteq> [] \<and> year n = hd (matchYears False s) \<and> theme n = themeOf s"
    by simp
  with s have "\<exists>s \<in> set (splitRegex sentenceMatch (content (secs ! i))).
      matchYears False s \<noteq> [] \<and> year n = hd (matchYears False s) \<and> theme n = themeOf s"
    by (rule rev_bexI)
  with i f(1) show ?thesis by simp
qed

lemma arFactNodes_year:
  assumes "n \<in> set (arFactNodes random secs)"
  shows "yearShape (year n)"
proof -
  from arFactNodes_origin[OF assms] obtain s where
    "matchYears False s \<noteq> []" "year n = hd (matchYears False s)" by blast
  then have "year n \<in> set (matchYears False s)" by simp
  then show ?thesis by (rule matchYears_shape)
qed

lemma eraseCoordinates_factNode:
  "eraseCoordinates (factNode r1 k sIdx idx s y) = eraseCoordinates (factNode r2 k sIdx idx s y)"
  by (simp add: eraseCoordinates_def factNode_def)

lemma sentenceNodes_random:
  assumes "map eraseCoordinates nodes1 = map eraseCoordinates nodes2"
  shows "map eraseCoordinates (sentenceNodes r1 sIdx idx ss nodes1)
     = map eraseCoordinates (sentenceNodes r2 sIdx idx ss nodes2)"
  using assms
proof (induction ss arbitrary: idx nodes1 nodes2)
  case Nil
  then show ?case by simp
next
  case (Cons s ss)
  from Cons.prems have len: "length nodes1 = length nodes2" by (rule map_eq_imp_length_eq)
  show ?case
  proof (cases "matchYears False s")
    case Nil
    with Cons.IH[OF Cons.prems] show ?thesis by simp
  next
    case (Cons y ys)
    show ?thesis
    proof (cases "length nodes1 < 8")
      case True
      have "map eraseCoordinates (nodes1 @ [factNode r1 (length nodes1) sIdx idx s y])
          = map eraseCoordinates (nodes2 @ [factNode r2 (length nodes2) sIdx idx s y])"
        using Cons.prems len eraseCoordinates_factNode[of r1 "length nodes2" sIdx idx s y r2]
        by simp
      from Cons.IH[OF this] True len Cons show ?thesis by simp
    next
      case False
      with Cons.IH[OF Cons.prems] len Cons show ?thesis by simp
    qed
  qed
qed

lemma sectionNodes_random:
  assumes "map eraseCoordinates nodes1 = map eraseCoordinates nodes2"
  shows "map eraseCoordinates (sectionNodes r1 sIdx secs nodes1)
     = map eraseCoordinates (sectionNodes r2 sIdx secs nodes2)"
  using assms
proof (induction secs arbitrary: sIdx nodes1 nodes2)
  case Nil
  then show ?case by simp
next
  case (Cons sec secs)
  from sentenceNodes_random[OF Cons.prems]
  have "map eraseCoordinates (sentenceNodes r1 sIdx 0 (splitRegex sentenceMatch (content sec)) nodes1)
      = map eraseCoordinates (sentenceNodes r2 sIdx 0 (splitRegex sentenceMatch (content sec)) nodes2)" .
  from Cons.IH[OF this] show ?case by simp
qed

lemma arFactNodes_random:
  "map eraseCoordinates (arFactNodes r1 secs) = map eraseCoordinates (arFactNodes r2 secs)"
  by (simp add: arFactNodes_def sectionNodes_random)

lemma theme_eraseCoordinates: "theme (eraseCoordinates n) = theme n"
  by (simp add: eraseCoordinates_def)

lemma arFactNodes_themes_random:
  "map theme (arFactNodes r1 secs) = map theme (arFactNodes r2 secs)"
proof -
  have fe: "theme \<circ> eraseCoordinates = theme"
    by (rule ext) (simp add: eraseCoordinates_def)
  have "map theme (arFactNodes r1 secs) = map (theme \<circ> eraseCoordinates) (arFactNodes r1 secs)"
    by (simp only: fe)
  also have "\<dots> = map theme (map eraseCoordinates (arFactNodes r1 secs))"
    by (simp only: map_map)
  also have "\<dots> = map theme (map eraseCoordinates (arFactNodes r2 secs))"
    by (simp only: arFactNodes_random[of r1 secs r2])
  also have "\<dots> = map (theme \<circ> eraseCoordinates) (arFactNodes r2 secs)"
    by (simp only: map_map)
  also have "\<dots> = map theme (arFactNodes r2 secs)"
    by (simp only: fe)
  finally show ?thesis .
qed

lemma themeOf_precedence:
  "themeOf s =
     (let l = toLowerCase s
      in if includesStr l ''king'' \<or> includesStr l ''queen'' \<or> includesStr l ''emperor''
         then ''Royal Era''
         else if includesStr l ''rebuild'' \<or> includesStr l ''modern'' \<or> includesStr l ''today''
         then ''Modernization''
         else if includesStr l ''war'' \<or> includesStr l ''battle'' \<or> includesStr l ''conflict''
         then ''Conflict''
         else if includesStr l ''architect'' \<or> includesStr l ''design''
         then ''Architecture''
         else ''General History'')"
  by (simp only: themeOf_def Let_def)

text \<open>
  C2 as stated fails in its precedence: the sentence below holds \<open>architect\<close>, the first
  rule of the claimed order, and \<open>king\<close>; its theme is \<open>Royal Era\<close>, not \<open>Architecture\<close>.
\<close>

theorem theme_precedence_counterexample:
  "includesStr (toLowerCase ''In 1500 the king hired an architect.'') ''architect''
   \<and> themeOf ''In 1500 the king hired an architect.'' = ''Royal Era''
   \<and> map (\<lambda>n. (year n, theme n))
         (arFactNodes (\<lambda>i. 0)
            [\<lparr>title = ''Origins'', content = ''In 1500 the king hired an architect.''\<rparr>])
       = [(''1500'', ''Royal Era'')]"
  by code_simp

text \<open>
  C2, amended. For every section list and all random numbers the extractor emits at most
  8 nodes. The year of each node is matched by \<open>/\b(1\d{3}|20\d{2})\b/\<close> as a whole: four
  digits, the first \<open>1\<close> or the first two \<open>20\<close>. Each node comes from a sentence of the
  section with its index, its year is the first match in that sentence and its theme is
  \<open>themeOf\<close> of that sentence; the themes, and the nodes up to their coordinates, are the
  same for any two sequences of random numbers. The theme is chosen by keyword presence,
  the last matching rule winning: royal-era before modernization before conflict before
  architecture, and general when no rule matches.
\<close>

theorem fact_nodes_bounded_and_themed:
  "length (arFactNodes random secs) \<le> 8
   \<and> (\<forall>n \<in> set (arFactNodes random secs).
         matchYears False (year n) = [year n]
         \<and> length (year n) = 4 \<and> list_all isDigit (year n)
         \<and> (hd (year n) = CHR ''1'' \<or> take 2 (year n) = ''20'')
         \<and> sectionIdx n < length secs
         \<and> (\<exists>s \<in> set (splitRegex sentenceMatch (content (secs ! sectionIdx n))).
               matchYears False s \<noteq> [] \<and> year n = hd (matchYears False s)
               \<and> theme n = themeOf s))
   \<and> map theme (arFactNodes random secs) = map theme (arFactNodes random' secs)
   \<and> map eraseCoordinates (arFactNodes random secs)
       = map eraseCoordinates (arFactNodes random' secs)
   \<and> themeOf s =
       (let l = toLowerCase s
        in if includesStr l ''king'' \<or> includesStr l ''queen'' \<or> includesStr l ''emperor''
           then ''Royal Era''
           else if includesStr l ''rebuild'' \<or> includesStr l ''modern'' \<or> includesStr l ''today''
           then ''Modernization''
           else if includesStr l ''war'' \<or> includesStr l ''battle'' \<or> includesStr l ''conflict''
           then ''Conflict''
           else if includesStr l ''architect'' \<or> includesStr l ''design''
           then ''Architecture''
           else ''General History'')"
proof (intro conjI ballI)
  show "length (arFactNodes random secs) \<le> 8"
    by (simp add: arFactNodes_def sectionNodes_length)
next
  fix n assume n: "n \<in> set (arFactNodes random secs)"
  note y = yearShape_matches[OF arFactNodes_year[OF n]]
  show "matchYears False (year n) = [year n]" by (rule y)
  show "length (year n) = 4" by (rule y)
  show "list_all isDigit (year n)" by (rule y)
  show "hd (year n) = CHR ''1'' \<or> take 2 (year n) = ''20''" by (rule y)
  from arFactNodes_origin[OF n] show "sectionIdx n < length secs" by (rule conjunct1)
  from arFactNodes_origin[OF n]
  show "\<exists>s \<in> set (splitRegex sentenceMatch (content (secs ! sectionIdx n))).
          matchYears False s \<noteq> [] \<and> year n = hd (matchYears False s) \<and> theme n = themeOf s"
    by (rule conjunct2)
next
  show "map theme (arFactNodes random secs) = map theme (arFactNodes random' secs)"
    by (rule arFactNodes_themes_random)
  show "map eraseCoordinates (arFactNodes random secs)
       = map eraseCoordinates (arFactNodes random' secs)"
    by (rule arFactNodes_random)
  show "themeOf s =
       (let l = toLowerCase s
        in if includesStr l ''king'' \<or> includesStr l ''queen'' \<or> includesStr l ''emperor''
           then ''Royal Era''
           else if includesStr l ''rebuild'' \<or> includesStr l ''modern'' \<or> includesStr l ''today''
           then ''Modernization''
           else if includesStr l ''war'' \<or> includesStr l ''battle'' \<or> includesStr l ''conflict''
           then ''Conflict''
           else if includesStr l ''architect'' \<or> includesStr l ''design''
           then ''Architecture''
           else ''General History'')"
    by (rule themeOf_precedence)
qed

theorem fact_nodes_bounded_and_themed_witness:
  "length (arFactNodes (\<lambda>i. 0) scenarioSections) \<le> 8
   \<and> list_all (\<lambda>n. matchYears False (year n) = [year n] \<and> length (year n) = 4
         \<and> sectionIdx n < length scenarioSections)
       (arFactNodes (\<lambda>i. 0) scenarioSections)
   \<and> map year (arFactNodes (\<lambda>i. 0) scenarioSections) = [''1191'', ''2005'']
   \<and> map theme (arFactNodes (\<lambda>i. 1 / 2) scenarioSections)
       = map theme (arFactNodes (\<lambda>i. 0) scenarioSections)"
proof -
  note t = fact_nodes_bounded_and_themed[where random = "\<lambda>i. 0" and random' = "\<lambda>i. 1 / 2"
      and secs = scenarioSections and s = "''Built in 1191 by King X.''"]
  from t have c1: "length (arFactNodes (\<lambda>i. 0) scenarioSections) \<le> 8" by (rule conjunct1)
  from t have "\<forall>n \<in> set (arFactNodes (\<lambda>i. 0) scenarioSections).
      matchYears False (year n) = [year n] \<and> length (year n) = 4
      \<and> sectionIdx n < length scenarioSections" by blast
  then have c2: "list_all (\<lambda>n. matchYears False (year n) = [year n] \<and> length (year n) = 4
         \<and> sectionIdx n < length scenarioSections) (arFactNodes (\<lambda>i. 0) scenarioSections)"
    by (simp only: list_all_iff)
  have c3: "map year (arFactNodes (\<lambda>i. 0) scenarioSections) = [''1191'', ''2005'']"
    by code_simp
  from t have c4: "map theme (arFactNodes (\<lambda>i. 1 / 2) scenarioSections)
       = map theme (arFactNodes (\<lambda>i. 0) scenarioSections)" by simp
  from c1 c2 c3 c4 show ?thesis by (intro conjI)
qed

section \<open>Properties of the discovery flow\<close>

lemma processLandmark_fulfilled:
  assumes "historyFetch sv linfo = Fulfilled h" "relatedFetch sv linfo = Fulfilled rel"
  shows "processLandmark sv linfo img app =
     (None, (saveToHistory (newResultOf sv linfo img h rel)
               (app\<lparr>app_state := SEARCHING, app_result := Some (newResultOf sv linfo img h rel)\<rparr>))
            \<lparr>app_state := RESULT\<rparr>)"
  using assms
  by (simp add: processLandmark_def promiseAll_def historyFetch_def relatedFetch_def Let_def)

lemma processLandmark_rejected:
  assumes "isRejected (historyFetch sv linfo) \<or> isRejected (relatedFetch sv linfo)"
  shows "\<exists>e. processLandmark sv linfo img app = (Some e, app\<lparr>app_state := SEARCHING\<rparr>)
     \<and> (historyFetch sv linfo = Rejected e \<or> relatedFetch sv linfo = Rejected e)"
proof (cases "historyFetch sv linfo")
  case (Fulfilled h)
  with assms obtain e where r: "relatedFetch sv linfo = Rejected e"
    by (cases "relatedFetch sv linfo") auto
  with Fulfilled show ?thesis
    by (simp add: processLandmark_def promiseAll_def historyFetch_def relatedFetch_def Let_def)
next
  case (Rejected e)
  show ?thesis
  proof (cases "relatedFetch sv linfo")
    case (Fulfilled rel)
    with Rejected show ?thesis
      by (simp add: processLandmark_def promiseAll_def historyFetch_def relatedFetch_def Let_def)
  next
    case r: (Rejected e')
    with Rejected show ?thesis
      by (cases "relatedSettlesFirst sv")
        (simp_all add: processLandmark_def promiseAll_def historyFetch_def relatedFetch_def Let_def)
  qed
qed

lemma captureFailed_frame:
  "app_state (captureFailed e app) = ERROR"
  "\<exists>msg. app_error (captureFailed e app) = Some msg"
  "app_result (captureFailed e app) = app_result app"
  "app_history (captureFailed e app) = app_history app"
  "stored (captureFailed e app) = stored app"
  by (simp_all add: captureFailed_def)

lemma handleCapture_rejected:
  assumes "\<not> isOffline app" "identifyLandmark sv img = Fulfilled linfo"
    "isRejected (historyFetch sv linfo) \<or> isRejected (relatedFetch sv linfo)"
  shows "app_state (handleCapture sv img app) = ERROR"
    and "\<exists>msg. app_error (handleCapture sv img app) = Some msg"
    and "app_result (handleCapture sv img app) = app_result app"
    and "app_history (handleCapture sv img app) = app_history app"
    and "stored (handleCapture sv img app) = stored app"
proof -
  let ?app1 = "app\<lparr>capturedImage := Some img, app_state := IDENTIFYING, app_error := None\<rparr>"
  from processLandmark_rejected[OF assms(3), of img ?app1] obtain e where
    p: "processLandmark sv linfo img ?app1 = (Some e, ?app1\<lparr>app_state := SEARCHING\<rparr>)" by blast
  have h: "handleCapture sv img app = captureFailed e (?app1\<lparr>app_state := SEARCHING\<rparr>)"
    using assms(1,2) p by (simp add: handleCapture_def Let_def)
  show "app_state (handleCapture sv img app) = ERROR" by (simp add: h captureFailed_frame)
  show "\<exists>msg. app_error (handleCapture sv img app) = Some msg"
    by (simp only: h captureFailed_frame)
  show "app_result (handleCapture sv img app) = app_result app" by (simp add: h captureFailed_frame)
  show "app_history (handleCapture sv img app) = app_history app" by (simp add: h captureFailed_frame)
  show "stored (handleCapture sv img app) = stored app" by (simp add: h captureFailed_frame)
qed

lemma handleCapture_fulfilled:
  assumes "\<not> isOffline app" "identifyLandmark sv img = Fulfilled linfo"
    "historyFetch sv linfo = Fulfilled h" "relatedFetch sv linfo = Fulfilled rel"
  shows "app_state (handleCapture sv img app) = RESULT"
    and "app_error (handleCapture sv img app) = None"
    and "app_result (handleCapture sv img app) = Some (newResultOf sv linfo img h rel)"
    and "app_history (handleCapture sv img app)
          = saveToHistory_updated (newResultOf sv linfo img h rel) (app_history app)"
    and "stored (handleCapture sv img app)
          = Some (saveToHistory_updated (newResultOf sv linfo img h rel) (app_history app))"
  using assms(1,2) processLandmark_fulfilled[OF assms(3,4)]
  by (simp_all add: handleCapture_def saveToHistory_def Let_def)

lemma handleCapture_saves_only_on_success:
  assumes "stored (handleCapture sv img app) \<noteq> stored app
     \<or> app_history (handleCapture sv img app) \<noteq> app_history app
     \<or> app_result (handleCapture sv img app) \<noteq> app_result app"
  shows "\<exists>linfo h rel. identifyLandmark sv img = Fulfilled linfo
     \<and> historyFetch sv linfo = Fulfilled h \<and> relatedFetch sv linfo = Fulfilled rel"
proof (cases "isOffline app")
  case True
  with assms show ?thesis by (simp add: handleCapture_def)
next
  case False
  show ?thesis
  proof (cases "identifyLandmark sv img")
    case (Rejected e)
    with False assms show ?thesis by (simp add: handleCapture_def Let_def captureFailed_frame)
  next
    case (Fulfilled linfo)
    show ?thesis
    proof (cases "isRejected (historyFetch sv linfo) \<or> isRejected (relatedFetch sv linfo)")
      case True
      from handleCapture_rejected(3,4,5)[OF False Fulfilled True] assms show ?thesis by simp
    next
      case nr: False
      then obtain h rel where "historyFetch sv linfo = Fulfilled h" "relatedFetch sv linfo = Fulfilled rel"
        by (cases "historyFetch sv linfo"; cases "relatedFetch sv linfo") auto
      with Fulfilled show ?thesis by blast
    qed
  qed
qed

text \<open>
  C8. The history fetch and the related-landmarks fetch are joined by \<open>Promise.all\<close>. When
  both are fulfilled, \<open>processLandmark\<close> builds one result from both values, shows it and
  saves it to the journal. When either is rejected, \<open>processLandmark\<close> throws one of the
  rejections after only setting the state to \<open>SEARCHING\<close>: no result is created and the
  journal and the storage are as before; \<open>handleCapture\<close> then ends in \<open>ERROR\<close> with one
  message, the shown result, the journal and the storage still as before. Conversely,
  whenever \<open>handleCapture\<close> changes the shown result, the journal or the storage, the
  identification and both fetches were fulfilled.
\<close>

theorem joined_fetch_all_or_nothing:
  "(historyFetch sv linfo = Fulfilled h \<and> relatedFetch sv linfo = Fulfilled rel \<longrightarrow>
      processLandmark sv linfo img app =
        (None, (saveToHistory (newResultOf sv linfo img h rel)
                  (app\<lparr>app_state := SEARCHING,
                        app_result := Some (newResultOf sv linfo img h rel)\<rparr>))
               \<lparr>app_state := RESULT\<rparr>))
   \<and> (isRejected (historyFetch sv linfo) \<or> isRejected (relatedFetch sv linfo) \<longrightarrow>
        (\<exists>e. processLandmark sv linfo img app = (Some e, app\<lparr>app_state := SEARCHING\<rparr>)
           \<and> (historyFetch sv linfo = Rejected e \<or> relatedFetch sv linfo = Rejected e)))
   \<and> (\<not> isOffline app \<and> identifyLandmark sv img = Fulfilled linfo
        \<and> (isRejected (historyFetch sv linfo) \<or> isRejected (relatedFetch sv linfo)) \<longrightarrow>
        app_state (handleCapture sv img app) = ERROR
        \<and> (\<exists>msg. app_error (handleCapture sv img app) = Some msg)
        \<and> app_result (handleCapture sv img app) = app_result app
        \<and> app_history (handleCapture sv img app) = app_history app
        \<and> stored (handleCapture sv img app) = stored app)
   \<and> (\<not> isOffline app \<and> identifyLandmark sv img = Fulfilled linfo
        \<and> historyFetch sv linfo = Fulfilled h \<and> relatedFetch sv linfo = Fulfilled rel \<longrightarrow>
        app_state (handleCapture sv img app) = RESULT
        \<and> app_error (handleCapture sv img app) = None
        \<and> app_result (handleCapture sv img app) = Some (newResultOf sv linfo img h rel)
        \<and> app_history (handleCapture sv img app)
            = saveToHistory_updated (newResultOf sv linfo img h rel) (app_history app)
        \<and> stored (handleCapture sv img app)
            = Some (saveToHistory_updated (newResultOf sv linfo img h rel) (app_history app)))
   \<and> (stored (handleCapture sv img app) \<noteq> stored app
        \<or> app_history (handleCapture sv img app) \<noteq> app_history app
        \<or> app_result (handleCapture sv img app) \<noteq> app_result app \<longrightarrow>
        (\<exists>li hi ri. identifyLandmark sv img = Fulfilled li
           \<and> historyFetch sv li = Fulfilled hi \<and> relatedFetch sv li = Fulfilled ri))"
proof (intro conjI impI)
  assume "historyFetch sv linfo = Fulfilled h \<and> relatedFetch sv linfo = Fulfilled rel"
  then show "processLandmark sv linfo img app =
        (None, (saveToHistory (newResultOf sv linfo img h rel)
                  (app\<lparr>app_state := SEARCHING,
                        app_result := Some (newResultOf sv linfo img h rel)\<rparr>))
               \<lparr>app_state := RESULT\<rparr>)"
    by (simp add: processLandmark_fulfilled)
next
  assume "isRejected (historyFetch sv linfo) \<or> isRejected (relatedFetch sv linfo)"
  then show "\<exists>e. processLandmark sv linfo img app = (Some e, app\<lparr>app_state := SEARCHING\<rparr>)
           \<and> (historyFetch sv linfo = Rejected e \<or> relatedFetch sv linfo = Rejected e)"
    by (rule processLandmark_rejected)
next
  assume a: "\<not> isOffline app \<and> identifyLandmark sv img = Fulfilled linfo
        \<and> (isRejected (historyFetch sv linfo) \<or> isRejected (relatedFetch sv linfo))"
  then have o: "\<not> isOffline app" and i: "identifyLandmark sv img = Fulfilled linfo"
    and r: "isRejected (historyFetch sv linfo) \<or> isRejected (relatedFetch sv linfo)"
    by simp_all
  show "app_state (handleCapture sv img app) = ERROR" by (rule handleCapture_rejected(1)[OF o i r])
  show "\<exists>msg. app_error (handleCapture sv img app) = Some msg"
    by (rule handleCapture_rejected(2)[OF o i r])
  show "app_result (handleCapture sv img app) = app_result app"
    by (rule handleCapture_rejected(3)[OF o i r])
  show "app_history (handleCapture sv img app) = app_history app"
    by (rule handleCapture_rejected(4)[OF o i r])
  show "stored (handleCapture sv img app) = stored app"
    by (rule handleCapture_rejected(5)[OF o i r])
next
  assume a: "\<not> isOffline app \<and> identifyLandmark sv img = Fulfilled linfo
        \<and> historyFetch sv linfo = Fulfilled h \<and> relatedFetch sv linfo = Fulfilled rel"
  then have o: "\<not> isOffline app" and i: "identifyLandmark sv img = Fulfilled linfo"
    and f: "historyFetch sv linfo = Fulfilled h" and g: "relatedFetch sv linfo = Fulfilled rel"
    by simp_all
  show "app_state (handleCapture sv img app) = RESULT"
    by (rule handleCapture_fulfilled(1)[OF o i f g])
  show "app_error (handleCapture sv img app) = None"
    by (rule handleCapture_fulfilled(2)[OF o i f g])
  show "app_result (handleCapture sv img app) = Some (newResultOf sv linfo img h rel)"
    by (rule handleCapture_fulfilled(3)[OF o i f g])
  show "app_history (handleCapture sv img app)
            = saveToHistory_updated (newResultOf sv linfo img h rel) (app_history app)"
    by (rule handleCapture_fulfilled(4)[OF o i f g])
  show "stored (handleCapture sv img app)
            = Some (saveToHistory_updated (newResultOf sv linfo img h rel) (app_history app))"
    by (rule handleCapture_fulfilled(5)[OF o i f g])
next
  assume "stored (handleCapture sv img app) \<noteq> stored app
        \<or> app_history (handleCapture sv img app) \<noteq> app_history app
        \<or> app_result (handleCapture sv img app) \<noteq> app_result app"
  then show "\<exists>li hi ri. identifyLandmark sv img = Fulfilled li
           \<and> historyFetch sv li = Fulfilled hi \<and> relatedFetch sv li = Fulfilled ri"
    by (rule handleCapture_saves_only_on_success)
qed

theorem joined_fetch_all_or_nothing_witness:
  "app_state (handleCapture failingServices ''photo'' freshApp) = ERROR
   \<and> app_error (handleCapture failingServices ''photo'' freshApp) = Some ''quota exceeded''
   \<and> app_result (handleCapture failingServices ''photo'' freshApp) = None
   \<and> app_history (handleCapture failingServices ''photo'' freshApp) = [entry ''a'']
   \<and> stored (handleCapture failingServices ''photo'' freshApp) = Some [entry ''a'']
   \<and> app_state (handleCapture workingServices ''photo'' freshApp) = RESULT
   \<and> map ident (app_history (handleCapture workingServices ''photo'' freshApp)) = [''u1'', ''a'']"
proof -
  have o: "\<not> isOffline freshApp" by (simp add: freshApp_def)
  have i: "identifyLandmark failingServices ''photo'' = Fulfilled tower"
    and i': "identifyLandmark workingServices ''photo'' = Fulfilled tower"
    by (simp_all add: failingServices_def workingServices_def)
  have r: "isRejected (historyFetch failingServices tower) \<or> isRejected (relatedFetch failingServices tower)"
    by (simp add: failingServices_def relatedFetch_def)
  have f: "historyFetch workingServices tower = Fulfilled \<lparr>hd_text = ''## Origins'', hd_sources = []\<rparr>"
    and g: "relatedFetch workingServices tower = Fulfilled []"
    by (simp_all add: workingServices_def failingServices_def historyFetch_def relatedFetch_def)
  note t1 = joined_fetch_all_or_nothing[where sv = failingServices and linfo = tower
      and img = "''photo''" and app = freshApp]
  note t2 = joined_fetch_all_or_nothing[where sv = workingServices and linfo = tower
      and img = "''photo''" and app = freshApp
      and h = "\<lparr>hd_text = ''## Origins'', hd_sources = []\<rparr>" and rel = "[]"]
  from t1 o i r have c1: "app_state (handleCapture failingServices ''photo'' freshApp) = ERROR"
    and c3: "app_result (handleCapture failingServices ''photo'' freshApp) = app_result freshApp"
    and c4: "app_history (handleCapture failingServices ''photo'' freshApp) = app_history freshApp"
    and c5: "stored (handleCapture failingServices ''photo'' freshApp) = stored freshApp"
    by blast+
  have c2: "app_error (handleCapture failingServices ''photo'' freshApp) = Some ''quota exceeded''"
    by (simp add: handleCapture_def processLandmark_def promiseAll_def captureFailed_def
        failingServices_def freshApp_def tower_def Let_def)
  from t2 o i' f g have c6: "app_state (handleCapture workingServices ''photo'' freshApp) = RESULT"
    and c7: "app_history (handleCapture workingServices ''photo'' freshApp)
      = saveToHistory_updated (newResultOf workingServices tower ''photo''
          \<lparr>hd_text = ''## Origins'', hd_sources = []\<rparr> []) (app_history freshApp)"
    by blast+
  have c7': "map ident (app_history (handleCapture workingServices ''photo'' freshApp)) = [''u1'', ''a'']"
    unfolding c7
    by (simp add: saveToHistory_updated_def newResultOf_def workingServices_def
        failingServices_def freshApp_def entry_def)
  from c1 c2 c3 c4 c5 c6 c7' show ?thesis by (simp add: freshApp_def)
qed

end
